theory Spec2Isabelle
  imports Main "HOL-Library.Sublist" "HOL-Library.Multiset"
begin

section \<open>Data model\<close>

text \<open>
  The module \<^verbatim>\<open>src/index.js\<close> exports one function, \<^verbatim>\<open>migrate\<close>. It reads a
  directory of migration files, loads the ledger table of the database and brings the
  two into agreement. A migration object of the source carries \<^verbatim>\<open>id\<close>, \<^verbatim>\<open>name\<close>,
  \<^verbatim>\<open>filename\<close> and, once its file is parsed, \<^verbatim>\<open>up\<close>, \<^verbatim>\<open>down\<close> and \<^verbatim>\<open>hash\<close>;
  a ledger row carries \<^verbatim>\<open>id\<close>, \<^verbatim>\<open>name\<close>, \<^verbatim>\<open>up\<close>, \<^verbatim>\<open>down\<close> and \<^verbatim>\<open>hash\<close>.
  Ids are JavaScript numbers holding integers and are modelled as \<open>int\<close>; a JavaScript
  string is a list of its code units, of which those below 256 are represented.
\<close>

record migration =
  m_id :: int
  m_name :: string
  m_filename :: string
  m_up :: string
  m_down :: string
  m_hash :: string

record row =
  r_id :: int
  r_name :: string
  r_up :: string
  r_down :: string
  r_hash :: string

datatype force = NoForce | Last

record options =
  force :: force
  checkHash :: bool
  validateDown :: bool

section \<open>The database\<close>

text \<open>
  The statements the source sends through \<^verbatim>\<open>conn.query\<close>: transaction control, a
  migration script, and the three statements on the ledger table.
\<close>

datatype query =
    Begin
  | Commit
  | Rollback
  | Script string
  | Delete int
  | Insert row
  | UpdateHash string int

datatype error =
    NoMigrationsFound
  | MalformedMigrationFile string
  | ReadFailed string
  | ScriptFailed string
  | UniqueViolation int

section \<open>Loading the definitions\<close>

text \<open>
  Character classes of the JavaScript regular expressions used by the source:
  \<^verbatim>\<open>\d\<close>, the line terminators (which \<^verbatim>\<open>.\<close> does not match and after which
  \<^verbatim>\<open>^\<close> matches under the \<^verbatim>\<open>m\<close> flag), and \<^verbatim>\<open>\s\<close>.
\<close>

definition is_digit :: "char \<Rightarrow> bool" where
  "is_digit c = (c \<in> set ''0123456789'')"

definition is_line_terminator :: "char \<Rightarrow> bool" where
  "is_line_terminator c = (c = CHR 0x0A \<or> c = CHR 0x0D)"

definition is_space :: "char \<Rightarrow> bool" where
  "is_space c =
     (c \<in> set [CHR 0x09, CHR 0x0A, CHR 0x0B, CHR 0x0C, CHR 0x0D, CHR 0x20, CHR 0xA0])"

text \<open>\<^verbatim>\<open>Number(x[1])\<close> on a string of decimal digits.\<close>

definition Number :: "string \<Rightarrow> int" where
  "Number ds = foldl (\<lambda>n c. 10 * n + (of_char c - 48)) 0 ds"

text \<open>
  \<^verbatim>\<open>x.match(/^(\d+).(.*?)\.sql$/)\<close>, as the backtracking matcher runs it. The lazy
  group \<^verbatim>\<open>(.*?)\<close> first tries to end (the rest must be \<^verbatim>\<open>.sql\<close> up to the end of
  the name) and takes one more character otherwise; the greedy \<^verbatim>\<open>\d+\<close> takes every
  digit it can and gives digits back when the rest does not match. The result is the
  triple of the whole match and the two groups.
\<close>

fun lazy_name :: "string \<Rightarrow> string \<Rightarrow> string option" where
  "lazy_name acc [] = None"
| "lazy_name acc (c # cs) =
     (if c # cs = ''.sql'' then Some acc
      else if is_line_terminator c then None
      else lazy_name (acc @ [c]) cs)"

definition after_digits :: "string \<Rightarrow> string \<Rightarrow> (string \<times> string) option" where
  "after_digits ds s =
     (case s of
        [] \<Rightarrow> None
      | c # cs \<Rightarrow>
          if is_line_terminator c then None
          else map_option (\<lambda>n. (ds, n)) (lazy_name [] cs))"

fun greedy_digits :: "string \<Rightarrow> string \<Rightarrow> (string \<times> string) option" where
  "greedy_digits ds [] = after_digits ds []"
| "greedy_digits ds (c # cs) =
     (if is_digit c then
        (case greedy_digits (ds @ [c]) cs of
           Some r \<Rightarrow> Some r
         | None \<Rightarrow> after_digits ds (c # cs))
      else after_digits ds (c # cs))"

definition match_filename :: "string \<Rightarrow> (string \<times> string \<times> string) option" where
  "match_filename x =
     (case x of
        [] \<Rightarrow> None
      | c # cs \<Rightarrow>
          if is_digit c then map_option (\<lambda>(ds, n). (x, ds, n)) (greedy_digits [c] cs)
          else None)"

record entry =
  e_id :: int
  e_name :: string
  e_filename :: string

text \<open>
  The chain \<^verbatim>\<open>files.map(match).filter(x => x !== null).map(...).sort(...)\<close>; the sort
  is by ascending id and stable.
\<close>

definition list_migrations :: "string list \<Rightarrow> entry list" where
  "list_migrations files =
     sort_key e_id
       (map (\<lambda>(x0, x1, x2). \<lparr>e_id = Number x1, e_name = x2, e_filename = x0\<rparr>)
          (List.map_filter match_filename files))"

text \<open>
  \<^verbatim>\<open>data.split(/^--\s+?down/im)\<close>. A match starts at the beginning of a line with
  \<^verbatim>\<open>--\<close>, takes one or more white-space characters and then \<^verbatim>\<open>down\<close> in either
  case; \<open>match_marker\<close> returns the text after the match.
\<close>

definition down_ci :: "string \<Rightarrow> string option" where
  "down_ci s =
     (case s of
        a # b # c # d # rest \<Rightarrow>
          if a \<in> set ''dD'' \<and> b \<in> set ''oO'' \<and> c \<in> set ''wW'' \<and> d \<in> set ''nN''
          then Some rest else None
      | _ \<Rightarrow> None)"

fun lazy_space :: "string \<Rightarrow> string option" where
  "lazy_space [] = None"
| "lazy_space (c # cs) =
     (case down_ci (c # cs) of
        Some rest \<Rightarrow> Some rest
      | None \<Rightarrow> if is_space c then lazy_space cs else None)"

definition match_marker :: "string \<Rightarrow> string option" where
  "match_marker s =
     (case s of
        a # b # c # cs \<Rightarrow>
          if a = CHR ''-'' \<and> b = CHR ''-'' \<and> is_space c then lazy_space cs else None
      | _ \<Rightarrow> None)"

lemma lazy_space_shorter: "lazy_space s = Some rest \<Longrightarrow> length rest < length s"
  by (induction s) (auto simp: down_ci_def split: option.splits if_splits list.splits)

lemma match_marker_shorter: "match_marker s = Some rest \<Longrightarrow> length rest < length s"
  by (auto simp: match_marker_def split: list.splits if_splits dest!: lazy_space_shorter)

text \<open>
  The pieces \<^verbatim>\<open>split\<close> returns: the text scanned so far is cut off wherever the
  pattern matches, and scanning goes on after the match. \<open>bol\<close> says that the
  position is the beginning of a line.
\<close>

function js_split :: "bool \<Rightarrow> string \<Rightarrow> string \<Rightarrow> string list" where
  "js_split bol acc [] = [acc]"
| "js_split bol acc (c # cs) =
     (case (if bol then match_marker (c # cs) else None) of
        Some rest \<Rightarrow> acc # js_split False [] rest
      | None \<Rightarrow> js_split (is_line_terminator c) (acc @ [c]) cs)"
  by pat_completeness auto
termination
  by (relation "measure (\<lambda>(bol, acc, s). length s)")
     (auto split: if_splits dest: match_marker_shorter)

text \<open>\<^verbatim>\<open>s.replace(/^--.*?$/gm, '')\<close>: a comment at the beginning of a line goes, up to
  the end of its line.\<close>

function strip_comments :: "bool \<Rightarrow> string \<Rightarrow> string" where
  "strip_comments bol [] = []"
| "strip_comments bol (c # cs) =
     (if bol \<and> take 2 (c # cs) = ''--''
      then strip_comments False (dropWhile (\<lambda>x. \<not> is_line_terminator x) cs)
      else c # strip_comments (is_line_terminator c) cs)"
  by pat_completeness auto
termination
  by (relation "measure (\<lambda>(bol, s). length s)")
     (auto simp: less_Suc_eq_le length_dropWhile_le)

definition trim :: "string \<Rightarrow> string" where
  "trim s = rev (dropWhile is_space (rev (dropWhile is_space s)))"

text \<open>\<^verbatim>\<open>data.replace(/\r\n/g, '\n')\<close>\<close>

fun normalize_newlines :: "string \<Rightarrow> string" where
  "normalize_newlines (c # d # cs) =
     (if c = CHR 0x0D \<and> d = CHR 0x0A then CHR 0x0A # normalize_newlines cs
      else c # normalize_newlines (d # cs))"
| "normalize_newlines cs = cs"

text \<open>
  The body of the \<^verbatim>\<open>readFile\<close> callback. The digest
  \<^verbatim>\<open>crypto.createHash('sha512').update(...).digest('hex')\<close> belongs to the platform
  and is a parameter, \<open>sha512_hex\<close>.
\<close>

definition content_hash :: "(string \<Rightarrow> string) \<Rightarrow> string \<Rightarrow> string" where
  "content_hash sha512_hex data = sha512_hex (normalize_newlines data)"

definition parse_file :: "(string \<Rightarrow> string) \<Rightarrow> entry \<Rightarrow> string \<Rightarrow> error + migration" where
  "parse_file sha512_hex migration data =
     (case js_split True [] data of
        up # down # _ \<Rightarrow>
          if down = [] then Inl (MalformedMigrationFile (e_filename migration))
          else Inr \<lparr>m_id = e_id migration, m_name = e_name migration,
                    m_filename = e_filename migration,
                    m_up = trim (strip_comments True up),
                    m_down = trim (strip_comments True down),
                    m_hash = content_hash sha512_hex data\<rparr>
      | _ \<Rightarrow> Inl (MalformedMigrationFile (e_filename migration)))"

text \<open>
  The directory is the list of its files, each with its name and its content. All files
  are parsed; the first one that fails makes the load fail.
\<close>

fun parse_all ::
  "(string \<Rightarrow> string) \<Rightarrow> (string \<times> string) list \<Rightarrow> entry list \<Rightarrow> error + migration list" where
  "parse_all sha512_hex dir [] = Inr []"
| "parse_all sha512_hex dir (e # es) =
     (case map_of dir (e_filename e) of
        None \<Rightarrow> Inl (ReadFailed (e_filename e))
      | Some data \<Rightarrow>
          (case parse_file sha512_hex e data of
             Inl err \<Rightarrow> Inl err
           | Inr m \<Rightarrow>
               (case parse_all sha512_hex dir es of
                  Inl err \<Rightarrow> Inl err
                | Inr ms \<Rightarrow> Inr (m # ms))))"

definition load_migrations ::
  "(string \<Rightarrow> string) \<Rightarrow> (string \<times> string) list \<Rightarrow> error + migration list" where
  "load_migrations sha512_hex dir =
     (let migrations = list_migrations (map fst dir) in
      if migrations = [] then Inl NoMigrationsFound
      else parse_all sha512_hex dir migrations)"

text \<open>
  The database holds the ledger table, whatever the migration scripts act on (\<open>schema\<close>,
  of a type the model leaves open), the state saved by \<^verbatim>\<open>begin\<close> for a later
  \<^verbatim>\<open>rollback\<close>, and the statements received so far, oldest first. The table's
  \<^verbatim>\<open>id\<close> column is its primary key: an insert of a present id fails. What a script does
  is given by a function \<open>ex\<close> from the script and the schema to the new schema, or to
  \<open>None\<close> when the script raises an error. Transaction control and the statements on
  the ledger other than a key violation are taken to succeed.
\<close>

record 's db =
  ledger :: "row list"
  schema :: 's
  saved :: "(row list \<times> 's) option"
  issued :: "query list"

datatype 's outcome = Ok "'s db" | Fail error "'s db"

definition received :: "query \<Rightarrow> 's db \<Rightarrow> 's db" where
  "received q d = d\<lparr>issued := issued d @ [q]\<rparr>"

fun exec_query :: "(string \<Rightarrow> 's \<Rightarrow> 's option) \<Rightarrow> query \<Rightarrow> 's db \<Rightarrow> 's outcome" where
  "exec_query ex Begin d = Ok ((received Begin d)\<lparr>saved := Some (ledger d, schema d)\<rparr>)"
| "exec_query ex Commit d = Ok ((received Commit d)\<lparr>saved := None\<rparr>)"
| "exec_query ex Rollback d =
     (case saved d of
        None \<Rightarrow> Ok (received Rollback d)
      | Some (l, s) \<Rightarrow> Ok ((received Rollback d)\<lparr>ledger := l, schema := s, saved := None\<rparr>))"
| "exec_query ex (Script sql) d =
     (case ex sql (schema d) of
        None \<Rightarrow> Fail (ScriptFailed sql) (received (Script sql) d)
      | Some s \<Rightarrow> Ok ((received (Script sql) d)\<lparr>schema := s\<rparr>))"
| "exec_query ex (Delete i) d =
     Ok ((received (Delete i) d)\<lparr>ledger := filter (\<lambda>x. r_id x \<noteq> i) (ledger d)\<rparr>)"
| "exec_query ex (Insert r) d =
     (if r_id r \<in> set (map r_id (ledger d))
      then Fail (UniqueViolation (r_id r)) (received (Insert r) d)
      else Ok ((received (Insert r) d)\<lparr>ledger := ledger d @ [r]\<rparr>))"
| "exec_query ex (UpdateHash h i) d =
     Ok ((received (UpdateHash h i) d)
           \<lparr>ledger := map (\<lambda>x. if r_id x = i then x\<lparr>r_hash := h\<rparr> else x) (ledger d)\<rparr>)"

text \<open>Sequencing of awaited statements: the first failure is thrown past the rest.\<close>

definition and_then :: "'s outcome \<Rightarrow> ('s db \<Rightarrow> 's outcome) \<Rightarrow> 's outcome" where
  "and_then r f = (case r of Ok d \<Rightarrow> f d | Fail e d \<Rightarrow> Fail e d)"

text \<open>\<^verbatim>\<open>try { ... } catch (err) { yield conn.query('rollback'); throw err }\<close>\<close>

definition catch_rollback ::
  "(string \<Rightarrow> 's \<Rightarrow> 's option) \<Rightarrow> 's outcome \<Rightarrow> 's outcome" where
  "catch_rollback ex r =
     (case r of
        Ok d \<Rightarrow> Ok d
      | Fail e d \<Rightarrow> and_then (exec_query ex Rollback d) (\<lambda>d'. Fail e d'))"

text \<open>\<^verbatim>\<open>select id, name, up, down, hash from "table" order by id asc\<close>\<close>

definition select_all :: "'s db \<Rightarrow> row list" where
  "select_all d = sort_key r_id (ledger d)"

section \<open>Reconciliation\<close>

text \<open>
  The audit loop of the source (it is not guarded by \<^verbatim>\<open>checkHash\<close>): a row whose id has
  a definition is backfilled when its hash is the sentinel \<^verbatim>\<open>'nil'\<close>, and otherwise
  compared with the definition's hash; \<open>firstMismatch\<close> starts at \<open>-1\<close>.
\<close>

fun audit_loop ::
  "(string \<Rightarrow> 's \<Rightarrow> 's option) \<Rightarrow> migration list \<Rightarrow> row list \<Rightarrow> int \<Rightarrow> 's db
     \<Rightarrow> int \<times> 's outcome" where
  "audit_loop ex migrations [] firstMismatch d = (firstMismatch, Ok d)"
| "audit_loop ex migrations (r # rs) firstMismatch d =
     (case find (\<lambda>x. m_id x = r_id r) migrations of
        None \<Rightarrow> audit_loop ex migrations rs firstMismatch d
      | Some file \<Rightarrow>
          if r_hash r = ''nil'' then
            (case exec_query ex (UpdateHash (m_hash file) (r_id r)) d of
               Fail e d' \<Rightarrow> (firstMismatch, Fail e d')
             | Ok d' \<Rightarrow> audit_loop ex migrations rs firstMismatch d')
          else if m_hash file \<noteq> r_hash r \<and> (firstMismatch = - 1 \<or> r_id r < firstMismatch)
          then audit_loop ex migrations rs (r_id r) d
          else audit_loop ex migrations rs firstMismatch d)"

text \<open>The condition of the rollback loop, with its three disjuncts in the source's order.\<close>

definition file_missing :: "migration list \<Rightarrow> int \<Rightarrow> bool" where
  "file_missing migrations i = (\<not> list_ex (\<lambda>x. m_id x = i) migrations)"

definition hash_rollback :: "options \<Rightarrow> int \<Rightarrow> int \<Rightarrow> bool" where
  "hash_rollback opts firstMismatch i =
     (checkHash opts \<and> firstMismatch \<noteq> - 1 \<and> i \<ge> firstMismatch)"

definition force_last :: "options \<Rightarrow> migration list \<Rightarrow> int \<Rightarrow> bool" where
  "force_last opts migrations i = (force opts = Last \<and> i = m_id (last migrations))"

definition should_rollback :: "options \<Rightarrow> migration list \<Rightarrow> int \<Rightarrow> int \<Rightarrow> bool" where
  "should_rollback opts migrations firstMismatch i =
     (file_missing migrations i \<or> hash_rollback opts firstMismatch i
        \<or> force_last opts migrations i)"

definition rollback_one :: "(string \<Rightarrow> 's \<Rightarrow> 's option) \<Rightarrow> row \<Rightarrow> 's db \<Rightarrow> 's outcome" where
  "rollback_one ex r d =
     and_then (exec_query ex Begin d) (\<lambda>d.
       catch_rollback ex
         (and_then (exec_query ex (Script (r_down r)) d) (\<lambda>d.
          and_then (exec_query ex (Delete (r_id r)) d) (\<lambda>d.
          exec_query ex Commit d))))"

text \<open>
  The rollback loop runs over a copy of \<^verbatim>\<open>dbMigrations\<close> sorted by descending id; the
  variable \<^verbatim>\<open>dbMigrations\<close> itself (\<open>view\<close>) loses each row whose rollback committed.
  The loop breaks at the first row that is kept.
\<close>

fun rollback_loop ::
  "(string \<Rightarrow> 's \<Rightarrow> 's option) \<Rightarrow> options \<Rightarrow> migration list \<Rightarrow> int \<Rightarrow> row list \<Rightarrow> row list
     \<Rightarrow> 's db \<Rightarrow> row list \<times> 's outcome" where
  "rollback_loop ex opts migrations firstMismatch [] view d = (view, Ok d)"
| "rollback_loop ex opts migrations firstMismatch (r # rs) view d =
     (if should_rollback opts migrations firstMismatch (r_id r) then
        (case rollback_one ex r d of
           Fail e d' \<Rightarrow> (view, Fail e d')
         | Ok d' \<Rightarrow>
             rollback_loop ex opts migrations firstMismatch rs
               (filter (\<lambda>x. r_id x \<noteq> r_id r) view) d')
      else (view, Ok d))"

definition row_of :: "migration \<Rightarrow> row" where
  "row_of m = \<lparr>r_id = m_id m, r_name = m_name m, r_up = m_up m, r_down = m_down m,
               r_hash = m_hash m\<rparr>"

definition apply_one ::
  "(string \<Rightarrow> 's \<Rightarrow> 's option) \<Rightarrow> options \<Rightarrow> migration \<Rightarrow> 's db \<Rightarrow> 's outcome" where
  "apply_one ex opts m d =
     and_then (exec_query ex Begin d) (\<lambda>d.
       catch_rollback ex
         (and_then (exec_query ex (Script (m_up m)) d) (\<lambda>d.
          and_then
            (if validateDown opts then
               and_then (exec_query ex (Script (m_down m)) d) (\<lambda>d.
               exec_query ex (Script (m_up m)) d)
             else Ok d) (\<lambda>d.
          and_then (exec_query ex (Insert (row_of m)) d) (\<lambda>d.
          exec_query ex Commit d)))))"

fun apply_loop ::
  "(string \<Rightarrow> 's \<Rightarrow> 's option) \<Rightarrow> options \<Rightarrow> int \<Rightarrow> migration list \<Rightarrow> 's db \<Rightarrow> 's outcome" where
  "apply_loop ex opts lastMigrationId [] d = Ok d"
| "apply_loop ex opts lastMigrationId (m # ms) d =
     (if m_id m > lastMigrationId then
        (case apply_one ex opts m d of
           Fail e d' \<Rightarrow> Fail e d'
         | Ok d' \<Rightarrow> apply_loop ex opts lastMigrationId ms d')
      else apply_loop ex opts lastMigrationId ms d)"

definition last_id :: "row list \<Rightarrow> int" where
  "last_id dbMigrations = (if dbMigrations = [] then 0 else r_id (last dbMigrations))"

text \<open>
  The three phases after the definitions are loaded and the ledger table exists: the
  part of \<^verbatim>\<open>migrate\<close> from \<^verbatim>\<open>listing existing migrations\<close> to \<^verbatim>\<open>done\<close>.
\<close>

definition audit_phase ::
  "(string \<Rightarrow> 's \<Rightarrow> 's option) \<Rightarrow> migration list \<Rightarrow> 's db \<Rightarrow> int \<times> 's outcome" where
  "audit_phase ex migrations d = audit_loop ex migrations (select_all d) (- 1) d"

definition rollback_phase ::
  "(string \<Rightarrow> 's \<Rightarrow> 's option) \<Rightarrow> options \<Rightarrow> migration list \<Rightarrow> int \<Rightarrow> row list \<Rightarrow> 's db
     \<Rightarrow> row list \<times> 's outcome" where
  "rollback_phase ex opts migrations firstMismatch dbMigrations d =
     rollback_loop ex opts migrations firstMismatch
       (sort_key (\<lambda>r. - r_id r) dbMigrations) dbMigrations d"

definition reconcile ::
  "(string \<Rightarrow> 's \<Rightarrow> 's option) \<Rightarrow> options \<Rightarrow> migration list \<Rightarrow> 's db \<Rightarrow> 's outcome" where
  "reconcile ex opts migrations d =
     (let dbMigrations = select_all d in
      case audit_phase ex migrations d of
        (firstMismatch, Fail e d1) \<Rightarrow> Fail e d1
      | (firstMismatch, Ok d1) \<Rightarrow>
          (case rollback_phase ex opts migrations firstMismatch dbMigrations d1 of
             (view, Fail e d2) \<Rightarrow> Fail e d2
           | (view, Ok d2) \<Rightarrow> apply_loop ex opts (last_id view) migrations d2))"

text \<open>The whole of \<^verbatim>\<open>migrate\<close>, from the directory listing on.\<close>

definition migrate ::
  "(string \<Rightarrow> string) \<Rightarrow> (string \<Rightarrow> 's \<Rightarrow> 's option) \<Rightarrow> options \<Rightarrow> (string \<times> string) list
     \<Rightarrow> 's db \<Rightarrow> 's outcome" where
  "migrate sha512_hex ex opts dir d =
     (case load_migrations sha512_hex dir of
        Inl e \<Rightarrow> Fail e d
      | Inr migrations \<Rightarrow> reconcile ex opts migrations d)"

section \<open>What a run leaves behind\<close>

text \<open>
  Descriptions of the statements and states that the theorems below compare the code
  with: the statements of one rollback and of one apply, the scripts an apply runs, a
  sequence of scripts run one after the other, and the backfill of one row.
\<close>

fun db_of :: "'s outcome \<Rightarrow> 's db" where
  "db_of (Ok d) = d"
| "db_of (Fail e d) = d"

definition rollback_queries :: "row \<Rightarrow> query list" where
  "rollback_queries r = [Begin, Script (r_down r), Delete (r_id r), Commit]"

definition apply_scripts :: "options \<Rightarrow> migration \<Rightarrow> string list" where
  "apply_scripts opts m =
     (if validateDown opts then [m_up m, m_down m, m_up m] else [m_up m])"

definition apply_queries :: "options \<Rightarrow> migration \<Rightarrow> query list" where
  "apply_queries opts m =
     Begin # map Script (apply_scripts opts m) @ [Insert (row_of m), Commit]"

fun exec_all :: "(string \<Rightarrow> 's \<Rightarrow> 's option) \<Rightarrow> string list \<Rightarrow> 's \<Rightarrow> 's option" where
  "exec_all ex [] s = Some s"
| "exec_all ex (q # qs) s = (case ex q s of None \<Rightarrow> None | Some s' \<Rightarrow> exec_all ex qs s')"

definition backfill :: "migration list \<Rightarrow> row \<Rightarrow> row" where
  "backfill migrations r =
     (case find (\<lambda>x. m_id x = r_id r) migrations of
        None \<Rightarrow> r
      | Some file \<Rightarrow> if r_hash r = ''nil'' then r\<lparr>r_hash := m_hash file\<rparr> else r)"

definition backfill_queries :: "migration list \<Rightarrow> row \<Rightarrow> query list" where
  "backfill_queries migrations r =
     (case find (\<lambda>x. m_id x = r_id r) migrations of
        None \<Rightarrow> []
      | Some file \<Rightarrow> if r_hash r = ''nil'' then [UpdateHash (m_hash file) (r_id r)] else [])"

definition mismatch :: "migration list \<Rightarrow> row \<Rightarrow> bool" where
  "mismatch migrations r =
     (case find (\<lambda>x. m_id x = r_id r) migrations of
        None \<Rightarrow> False
      | Some file \<Rightarrow> r_hash r \<noteq> ''nil'' \<and> m_hash file \<noteq> r_hash r)"

definition sentinel_ids :: "migration list \<Rightarrow> row list \<Rightarrow> int list" where
  "sentinel_ids migs rs =
     map r_id (filter (\<lambda>r. r_hash r = ''nil'' \<and> find (\<lambda>m. m_id m = r_id r) migs \<noteq> None) rs)"

definition set_hash :: "migration list \<Rightarrow> row \<Rightarrow> row" where
  "set_hash migs x =
     (case find (\<lambda>m. m_id m = r_id x) migs of None \<Rightarrow> x | Some file \<Rightarrow> x\<lparr>r_hash := m_hash file\<rparr>)"

fun deleted_ids :: "query list \<Rightarrow> int list" where
  "deleted_ids [] = []"
| "deleted_ids (Delete i # qs) = i # deleted_ids qs"
| "deleted_ids (q # qs) = deleted_ids qs"

text \<open>
  Condition (c) of the rollback phase in the words of the specification, and the rollback
  loop with that condition in the place of the source's; \<open>records\<close> is the list the
  source keeps in \<^verbatim>\<open>dbMigrations\<close>, from which every row rolled back is removed.
\<close>

definition spec_force_last :: "options \<Rightarrow> row list \<Rightarrow> migration list \<Rightarrow> int \<Rightarrow> bool" where
  "spec_force_last opts records definitions i =
     (force opts = Last \<and> i = Max (set (map r_id records)) \<and>
      i = Max (set (map m_id definitions)))"

fun spec_rollback_loop ::
  "(string \<Rightarrow> 's \<Rightarrow> 's option) \<Rightarrow> options \<Rightarrow> migration list \<Rightarrow> int \<Rightarrow> row list \<Rightarrow> row list
     \<Rightarrow> 's db \<Rightarrow> row list \<times> 's outcome" where
  "spec_rollback_loop ex opts definitions firstMismatch [] records d = (records, Ok d)"
| "spec_rollback_loop ex opts definitions firstMismatch (r # rs) records d =
     (if file_missing definitions (r_id r) \<or> hash_rollback opts firstMismatch (r_id r)
         \<or> spec_force_last opts records definitions (r_id r) then
        (case rollback_one ex r d of
           Fail e d' \<Rightarrow> (records, Fail e d')
         | Ok d' \<Rightarrow>
             spec_rollback_loop ex opts definitions firstMismatch rs
               (filter (\<lambda>x. r_id x \<noteq> r_id r) records) d')
      else (records, Ok d))"



text \<open>
  Where a marker stands in a text: at a position that begins a line (\<open>bol\<close> says
  whether position 0 does) and from which the pattern of the split matches; and the
  marker line in the words of the specification, which ignores white space before the
  comment marker.
\<close>

definition marker_at :: "bool \<Rightarrow> string \<Rightarrow> nat \<Rightarrow> bool" where
  "marker_at bol s p =
     ((if p = 0 then bol else is_line_terminator (s ! (p - 1))) \<and>
      match_marker (drop p s) \<noteq> None)"

definition no_marker_before :: "bool \<Rightarrow> string \<Rightarrow> nat \<Rightarrow> bool" where
  "no_marker_before bol s k = list_all (\<lambda>p. \<not> marker_at bol s p) [0..<k]"

definition spec_marker_line :: "string \<Rightarrow> bool" where
  "spec_marker_line l = (match_marker (dropWhile is_space l) \<noteq> None)"

text \<open>
  The same text with the line endings of the other platform: every line feed becomes
  carriage return, line feed.
\<close>

definition to_crlf :: "string \<Rightarrow> string" where
  "to_crlf s = concat (map (\<lambda>c. if c = CHR 0x0A then [CHR 0x0D, CHR 0x0A] else [c]) s)"

subsection \<open>A small database to run the code on\<close>

text \<open>
  A script engine that records the scripts it ran and rejects the script \<^verbatim>\<open>fail\<close>,
  and a database with an empty ledger.
\<close>

definition sql_engine :: "string \<Rightarrow> string list \<Rightarrow> string list option" where
  "sql_engine sql s = (if sql = ''fail'' then None else Some (s @ [sql]))"

definition empty_db :: "string list db" where
  "empty_db = \<lparr>ledger = [], schema = [], saved = None, issued = []\<rparr>"

definition rw :: "int \<Rightarrow> string \<Rightarrow> string \<Rightarrow> row" where
  "rw i down h = \<lparr>r_id = i, r_name = ''m'', r_up = ''up'', r_down = down, r_hash = h\<rparr>"

definition mig :: "int \<Rightarrow> string \<Rightarrow> string \<Rightarrow> string \<Rightarrow> migration" where
  "mig i up down h =
     \<lparr>m_id = i, m_name = ''m'', m_filename = ''m.sql'', m_up = up, m_down = down, m_hash = h\<rparr>"

definition no_check :: options where
  "no_check = \<lparr>force = NoForce, checkHash = False, validateDown = True\<rparr>"

definition legacy_db :: "string list db" where
  "legacy_db = empty_db\<lparr>ledger := [rw 1 ''down1'' ''nil'']\<rparr>"

definition two_files :: "migration list" where
  "two_files = [mig 1 ''up1'' ''down1'' ''h1'', mig 2 ''up2'' ''down2'' ''h2'']"

definition three_rows_db :: "string list db" where
  "three_rows_db =
     empty_db\<lparr>ledger := [rw 3 ''old3'' ''h3'', rw 1 ''down1'' ''h1'', rw 4 ''old4'' ''h4'']\<rparr>"

definition three_rows_after :: "string list db" where
  "three_rows_after =
     \<lparr>ledger = [rw 1 ''down1'' ''h1'', row_of (mig 2 ''up2'' ''down2'' ''h2'')],
      schema = [''old4'', ''old3'', ''up2'', ''down2'', ''up2''],
      saved = None,
      issued = [Begin, Script ''old4'', Delete 4, Commit, Begin, Script ''old3'', Delete 3, Commit,
                Begin, Script ''up2'', Script ''down2'', Script ''up2'',
                Insert (row_of (mig 2 ''up2'' ''down2'' ''h2'')), Commit]\<rparr>"

definition plain_digest :: "string \<Rightarrow> string" where
  "plain_digest s = s"

definition same_id_dir :: "(string \<times> string) list" where
  "same_id_dir =
     [(''1.a.sql'', ''up1\<newline>-- down\<newline>down1''),
      (''01.b.sql'', ''up2\<newline>-- down\<newline>down2'')]"

definition same_id_after :: "string list db" where
  "same_id_after =
     \<lparr>ledger = [\<lparr>r_id = 1, r_name = ''a'', r_up = ''up1'', r_down = ''down1'',
                   r_hash = ''up1\<newline>-- down\<newline>down1''\<rparr>],
      schema = [''up1'', ''down1'', ''up1''],
      saved = None,
      issued = [Begin, Script ''up1'', Script ''down1'', Script ''up1'',
                Insert \<lparr>r_id = 1, r_name = ''a'', r_up = ''up1'', r_down = ''down1'',
                         r_hash = ''up1\<newline>-- down\<newline>down1''\<rparr>,
                Commit,
                Begin, Script ''up2'', Script ''down2'', Script ''up2'',
                Insert \<lparr>r_id = 1, r_name = ''b'', r_up = ''up2'', r_down = ''down2'',
                         r_hash = ''up2\<newline>-- down\<newline>down2''\<rparr>,
                Rollback]\<rparr>"

definition force_last_opts :: options where
  "force_last_opts = \<lparr>force = Last, checkHash = True, validateDown = True\<rparr>"

definition up_to_date_db :: "string list db" where
  "up_to_date_db = empty_db\<lparr>ledger := map row_of two_files\<rparr>"

definition up_to_date_after :: "string list db" where
  "up_to_date_after =
     \<lparr>ledger = map row_of two_files,
      schema = [''down2'', ''up2'', ''down2'', ''up2''],
      saved = None,
      issued = [Begin, Script ''down2'', Delete 2, Commit,
                Begin, Script ''up2'', Script ''down2'', Script ''up2'',
                Insert (row_of (mig 2 ''up2'' ''down2'' ''h2'')), Commit]\<rparr>"

definition three_applied :: "row list" where
  "three_applied = [rw 1 ''down1'' ''h1'', rw 2 ''down2'' ''h2'', rw 3 ''old3'' ''h3'']"

definition first_run_db :: "string list db" where
  "first_run_db =
     \<lparr>ledger = map row_of two_files,
      schema = [''up1'', ''down1'', ''up1'', ''up2'', ''down2'', ''up2''],
      saved = None,
      issued = [Begin, Script ''up1'', Script ''down1'', Script ''up1'',
                Insert (row_of (mig 1 ''up1'' ''down1'' ''h1'')), Commit,
                Begin, Script ''up2'', Script ''down2'', Script ''up2'',
                Insert (row_of (mig 2 ''up2'' ''down2'' ''h2'')), Commit]\<rparr>"

definition clash_files :: "migration list" where
  "clash_files = [mig 1 ''up1'' ''down1'' ''h1'', mig 1 ''up1b'' ''down1b'' ''h1b'',
                  mig 2 ''up2'' ''down2'' ''h2'']"

definition clash_after :: "string list db" where
  "clash_after =
     \<lparr>ledger = [row_of (mig 1 ''up1'' ''down1'' ''h1'')],
      schema = [''up1'', ''down1'', ''up1''],
      saved = None,
      issued = [Begin, Script ''up1'', Script ''down1'', Script ''up1'',
                Insert (row_of (mig 1 ''up1'' ''down1'' ''h1'')), Commit,
                Begin, Script ''up1b'', Script ''down1b'', Script ''up1b'',
                Insert (row_of (mig 1 ''up1b'' ''down1b'' ''h1b'')), Rollback]\<rparr>"

definition demo_entry :: entry where
  "demo_entry = \<lparr>e_id = 1, e_name = ''a'', e_filename = ''1.a.sql''\<rparr>"

section \<open>One rollback, one apply\<close>

lemma r_id_row_of [simp]: "r_id (row_of m) = m_id m"
  by (simp add: row_of_def)

lemma rollback_one_eq:
  "rollback_one ex r d =
     (case ex (r_down r) (schema d) of
        None \<Rightarrow> Fail (ScriptFailed (r_down r))
                  (d\<lparr>saved := None, issued := issued d @ [Begin, Script (r_down r), Rollback]\<rparr>)
      | Some s \<Rightarrow> Ok (d\<lparr>ledger := filter (\<lambda>x. r_id x \<noteq> r_id r) (ledger d), schema := s,
                       saved := None,
                       issued := issued d @ rollback_queries r\<rparr>))"
  by (simp add: rollback_one_def and_then_def catch_rollback_def received_def rollback_queries_def
      split: option.splits)

lemma apply_one_eq:
  "apply_one ex opts m d =
     (case ex (m_up m) (schema d) of
        None \<Rightarrow> Fail (ScriptFailed (m_up m))
                  (d\<lparr>saved := None, issued := issued d @ [Begin, Script (m_up m), Rollback]\<rparr>)
      | Some s1 \<Rightarrow>
          if validateDown opts then
            (case ex (m_down m) s1 of
               None \<Rightarrow> Fail (ScriptFailed (m_down m))
                  (d\<lparr>saved := None,
                     issued := issued d @ [Begin, Script (m_up m), Script (m_down m), Rollback]\<rparr>)
             | Some s2 \<Rightarrow>
                 (case ex (m_up m) s2 of
                    None \<Rightarrow> Fail (ScriptFailed (m_up m))
                      (d\<lparr>saved := None,
                         issued := issued d @ [Begin, Script (m_up m), Script (m_down m),
                                               Script (m_up m), Rollback]\<rparr>)
                  | Some s3 \<Rightarrow>
                      if m_id m \<in> set (map r_id (ledger d))
                      then Fail (UniqueViolation (m_id m))
                        (d\<lparr>saved := None,
                           issued := issued d @ [Begin, Script (m_up m), Script (m_down m),
                                                 Script (m_up m), Insert (row_of m), Rollback]\<rparr>)
                      else Ok (d\<lparr>ledger := ledger d @ [row_of m], schema := s3, saved := None,
                                 issued := issued d @ apply_queries opts m\<rparr>)))
          else
            if m_id m \<in> set (map r_id (ledger d))
            then Fail (UniqueViolation (m_id m))
                   (d\<lparr>saved := None,
                      issued := issued d @ [Begin, Script (m_up m), Insert (row_of m), Rollback]\<rparr>)
            else Ok (d\<lparr>ledger := ledger d @ [row_of m], schema := s1, saved := None,
                       issued := issued d @ apply_queries opts m\<rparr>))"
  by (simp add: apply_one_def and_then_def catch_rollback_def received_def row_of_def
      apply_queries_def apply_scripts_def split: option.splits)

lemma apply_one_OkD:
  assumes "apply_one ex opts m d = Ok d'"
  shows "m_id m \<notin> set (map r_id (ledger d))"
    and "\<exists>s. exec_all ex (apply_scripts opts m) (schema d) = Some s \<and>
           d' = d\<lparr>ledger := ledger d @ [row_of m], schema := s, saved := None,
                  issued := issued d @ apply_queries opts m\<rparr>"
  using assms
  by (auto simp: apply_one_eq apply_scripts_def split: option.splits if_splits)

lemma apply_one_OkI:
  assumes "m_id m \<notin> set (map r_id (ledger d))"
    and "exec_all ex (apply_scripts opts m) (schema d) = Some s"
  shows "apply_one ex opts m d =
           Ok (d\<lparr>ledger := ledger d @ [row_of m], schema := s, saved := None,
                  issued := issued d @ apply_queries opts m\<rparr>)"
  using assms
  by (auto simp: apply_one_eq apply_scripts_def split: option.splits if_splits)

lemma apply_one_FailD:
  assumes "apply_one ex opts m d = Fail e d'"
  shows "ledger d' = ledger d" and "schema d' = schema d" and "saved d' = None"
    and "\<exists>qs. issued d' = issued d @ qs \<and> (\<forall>i. Delete i \<notin> set qs) \<and> Commit \<notin> set qs \<and>
           (\<forall>r. Insert r \<in> set qs \<longrightarrow> r = row_of m)"
    and "e = UniqueViolation i \<Longrightarrow> i = m_id m \<and> m_id m \<in> set (map r_id (ledger d))"
  using assms
  by (auto simp: apply_one_eq split: option.splits if_splits)

section \<open>Listing the ledger\<close>

lemma filter_key_distinct:
  "distinct (map f xs) \<Longrightarrow> k \<in> set xs \<Longrightarrow> filter (\<lambda>x. f k = f x) xs = [k]"
  by (induction xs) (auto simp: filter_empty_conv image_iff)

lemma sorted_map_uminus_rev:
  fixes f :: "'a \<Rightarrow> int"
  shows "sorted (map f xs) \<Longrightarrow> sorted (map (\<lambda>x. - f x) (rev xs))"
  by (induction xs) (auto simp: sorted_append)

lemma sort_key_desc_rev:
  fixes f :: "'a \<Rightarrow> int"
  assumes "sorted (map f xs)" and "distinct (map f xs)"
  shows "sort_key (\<lambda>x. - f x) xs = rev xs"
proof (rule properties_for_sort_key)
  show "mset (rev xs) = mset xs" by simp
  show "sorted (map (\<lambda>x. - f x) (rev xs))" using assms(1) by (rule sorted_map_uminus_rev)
next
  fix k assume "k \<in> set (rev xs)"
  then have k: "k \<in> set xs" by simp
  have "filter (\<lambda>x. f k = f x) (rev xs) = rev (filter (\<lambda>x. f k = f x) xs)"
    by (simp add: rev_filter)
  also have "\<dots> = [k]" using filter_key_distinct [OF assms(2) k] by simp
  finally show "filter (\<lambda>x. - f k = - f x) (rev xs) = filter (\<lambda>x. - f k = - f x) xs"
    using filter_key_distinct [OF assms(2) k] by simp
qed

lemma distinct_map_sort_key:
  "distinct (map g (sort_key f xs)) = distinct (map g xs)"
proof -
  have "mset (map g (sort_key f xs)) = mset (map g xs)" by simp
  then show ?thesis by (rule mset_eq_imp_distinct_iff)
qed

lemma select_all_sorted: "sorted (map r_id (select_all d))"
  by (simp add: select_all_def)

lemma select_all_distinct:
  "distinct (map r_id (select_all d)) = distinct (map r_id (ledger d))"
  by (simp add: select_all_def distinct_map_sort_key)

lemma set_select_all: "set (select_all d) = set (ledger d)"
  by (simp add: select_all_def)

section \<open>The audit loop\<close>

lemma set_hash_idem: "set_hash migs (set_hash migs x) = set_hash migs x"
  by (simp add: set_hash_def split: option.splits)

lemma r_id_set_hash: "r_id (set_hash migs x) = r_id x"
  by (simp add: set_hash_def split: option.splits)

lemma audit_loop_result:
  "\<exists>d'. audit_loop ex migs rs fm d = (fst (audit_loop ex migs rs fm d), Ok d') \<and>
     schema d' = schema d \<and> saved d' = saved d \<and>
     issued d' = issued d @ concat (map (backfill_queries migs) rs) \<and>
     ledger d' =
       map (\<lambda>x. if r_id x \<in> set (sentinel_ids migs rs) then set_hash migs x else x) (ledger d)"
proof (induction rs arbitrary: fm d)
  case Nil
  then show ?case by (simp add: sentinel_ids_def)
next
  case (Cons r rs)
  show ?case
  proof (cases "find (\<lambda>x. m_id x = r_id r) migs")
    case None
    with Cons.IH [of fm d] show ?thesis
      by (auto simp: backfill_queries_def sentinel_ids_def)
  next
    case (Some mf)
    show ?thesis
    proof (cases "r_hash r = ''nil''")
      case False
      with Some Cons.IH [of fm d] Cons.IH [of "r_id r" d] show ?thesis
        by (auto simp: backfill_queries_def sentinel_ids_def)
    next
      case True
      let ?d1 = "(received (UpdateHash (m_hash mf) (r_id r)) d)
           \<lparr>ledger := map (\<lambda>x. if r_id x = r_id r then x\<lparr>r_hash := m_hash mf\<rparr> else x) (ledger d)\<rparr>"
      from Cons.IH [of fm ?d1] obtain d' where d':
        "audit_loop ex migs rs fm ?d1 = (fst (audit_loop ex migs rs fm ?d1), Ok d')"
        "schema d' = schema ?d1" "saved d' = saved ?d1"
        "issued d' = issued ?d1 @ concat (map (backfill_queries migs) rs)"
        "ledger d' =
           map (\<lambda>x. if r_id x \<in> set (sentinel_ids migs rs) then set_hash migs x else x)
             (ledger ?d1)"
        by blast
      from True Some have bq: "backfill_queries migs r = [UpdateHash (m_hash mf) (r_id r)]"
        by (simp add: backfill_queries_def)
      from True Some have si: "sentinel_ids migs (r # rs) = r_id r # sentinel_ids migs rs"
        by (simp add: sentinel_ids_def)
      have step: "audit_loop ex migs (r # rs) fm d = audit_loop ex migs rs fm ?d1"
        using True Some by simp
      have led: "ledger d' =
          map (\<lambda>x. if r_id x \<in> set (sentinel_ids migs (r # rs)) then set_hash migs x else x) (ledger d)"
        unfolding d'(5) si using Some
        by (auto simp: received_def set_hash_def)
      show ?thesis
        unfolding step using d'(1-4) led bq
        by (intro exI [of _ d']) (simp add: received_def)
    qed
  qed
qed

lemma audit_phase_result:
  assumes "distinct (map r_id (ledger d))"
  shows "\<exists>fm d'. audit_phase ex migs d = (fm, Ok d') \<and>
     schema d' = schema d \<and> saved d' = saved d \<and>
     issued d' = issued d @ concat (map (backfill_queries migs) (select_all d)) \<and>
     ledger d' = map (backfill migs) (ledger d)"
proof -
  from audit_loop_result [of ex migs "select_all d" "- 1" d] obtain d' where d':
    "audit_loop ex migs (select_all d) (- 1) d = (fst (audit_loop ex migs (select_all d) (- 1) d), Ok d')"
    "schema d' = schema d" "saved d' = saved d"
    "issued d' = issued d @ concat (map (backfill_queries migs) (select_all d))"
    "ledger d' =
       map (\<lambda>x. if r_id x \<in> set (sentinel_ids migs (select_all d)) then set_hash migs x else x) (ledger d)"
    by blast
  have "(if r_id x \<in> set (sentinel_ids migs (select_all d)) then set_hash migs x else x) = backfill migs x"
    if "x \<in> set (ledger d)" for x
  proof -
    from assms have inj: "inj_on r_id (set (ledger d))" by (simp add: distinct_map)
    have "r_id x \<in> set (sentinel_ids migs (select_all d)) \<longleftrightarrow>
            r_hash x = ''nil'' \<and> find (\<lambda>m. m_id m = r_id x) migs \<noteq> None"
      using that inj by (auto simp: sentinel_ids_def set_select_all dest: inj_onD)
    then show ?thesis
      by (auto simp: backfill_def set_hash_def split: option.splits)
  qed
  then have "ledger d' = map (backfill migs) (ledger d)"
    unfolding d'(5) by (intro map_cong) auto
  with d'(1-4) show ?thesis
    by (auto simp: audit_phase_def)
qed


lemma audit_fm_no_mismatch:
  "\<forall>r \<in> set rs. \<not> mismatch migs r \<Longrightarrow> fst (audit_loop ex migs rs fm d) = fm"
  by (induction rs arbitrary: fm d) (auto simp: mismatch_def split: option.splits)

lemma audit_fm_mismatch:
  assumes "\<forall>r \<in> set rs. mismatch migs r \<longrightarrow> r_id r \<noteq> - 1"
  shows "(fm \<noteq> - 1 \<longrightarrow> fst (audit_loop ex migs rs fm d) \<noteq> - 1 \<and>
            fst (audit_loop ex migs rs fm d) \<le> fm) \<and>
         (\<forall>r \<in> set rs. mismatch migs r \<longrightarrow>
            fst (audit_loop ex migs rs fm d) \<noteq> - 1 \<and> fst (audit_loop ex migs rs fm d) \<le> r_id r)"
  using assms
proof (induction rs arbitrary: fm d)
  case Nil
  then show ?case by simp
next
  case (Cons r rs)
  from Cons.prems have rs: "\<forall>r \<in> set rs. mismatch migs r \<longrightarrow> r_id r \<noteq> - 1" by simp
  note IH = Cons.IH [OF rs]
  show ?case
  proof (cases "find (\<lambda>x. m_id x = r_id r) migs")
    case None
    with IH [of fm d] show ?thesis by (simp add: mismatch_def)
  next
    case (Some mf)
    show ?thesis
    proof (cases "r_hash r = ''nil''")
      case True
      with Some IH [of fm] show ?thesis by (simp add: mismatch_def)
    next
      case False
      show ?thesis
      proof (cases "m_hash mf \<noteq> r_hash r \<and> (fm = - 1 \<or> r_id r < fm)")
        case True
        with Some False have mm: "mismatch migs r" by (simp add: mismatch_def)
        with Cons.prems have "r_id r \<noteq> - 1" by simp
        with Some False True IH [of "r_id r" d] show ?thesis
          by (auto simp: mismatch_def)
      next
        case no: False
        with Some False IH [of fm d] show ?thesis
          by (auto simp: mismatch_def)
      qed
    qed
  qed
qed

section \<open>The rollback loop\<close>

text \<open>
  Whatever the outcome, the loop has rolled back a prefix of the rows it was given, each
  with the statements of \<open>rollback_queries\<close>; a failed run ends with the attempt on the
  next row.
\<close>

lemma rollback_loop_log:
  "rollback_loop ex opts migs fm todo view d = (view', out) \<Longrightarrow>
     \<exists>gone rest. todo = gone @ rest \<and>
       (\<forall>r \<in> set gone. should_rollback opts migs fm (r_id r)) \<and>
       view' = filter (\<lambda>x. r_id x \<notin> set (map r_id gone)) view \<and>
       ledger (db_of out) = filter (\<lambda>x. r_id x \<notin> set (map r_id gone)) (ledger d) \<and>
       issued (db_of out) = issued d @ concat (map rollback_queries gone) @
         (case out of Ok _ \<Rightarrow> [] | Fail _ _ \<Rightarrow> [Begin, Script (r_down (hd rest)), Rollback]) \<and>
       (\<forall>e d'. out = Fail e d' \<longrightarrow> rest \<noteq> [] \<and> e = ScriptFailed (r_down (hd rest))) \<and>
       (\<forall>d'. out = Ok d' \<longrightarrow>
          rest = [] \<or> \<not> should_rollback opts migs fm (r_id (hd rest)))"
proof (induction todo arbitrary: view d)
  case Nil
  then show ?case by auto
next
  case (Cons r rs)
  show ?case
  proof (cases "should_rollback opts migs fm (r_id r)")
    case False
    with Cons.prems have "view' = view" "out = Ok d" by auto
    with False show ?thesis
      by (intro exI [of _ "[]"] exI [of _ "r # rs"]) simp
  next
    case True
    show ?thesis
    proof (cases "ex (r_down r) (schema d)")
      case None
      with Cons.prems True have "view' = view"
        "out = Fail (ScriptFailed (r_down r))
           (d\<lparr>saved := None, issued := issued d @ [Begin, Script (r_down r), Rollback]\<rparr>)"
        by (auto simp: rollback_one_eq)
      then show ?thesis
        by (intro exI [of _ "[]"] exI [of _ "r # rs"]) simp
    next
      case (Some s)
      let ?d1 = "d\<lparr>ledger := filter (\<lambda>x. r_id x \<noteq> r_id r) (ledger d), schema := s,
                       saved := None, issued := issued d @ rollback_queries r\<rparr>"
      from Cons.prems True Some
      have "rollback_loop ex opts migs fm rs (filter (\<lambda>x. r_id x \<noteq> r_id r) view) ?d1 = (view', out)"
        by (simp add: rollback_one_eq)
      from Cons.IH [OF this] obtain gone rest where g: "rs = gone @ rest"
        "\<forall>r \<in> set gone. should_rollback opts migs fm (r_id r)"
        "view' = filter (\<lambda>x. r_id x \<notin> set (map r_id gone)) (filter (\<lambda>x. r_id x \<noteq> r_id r) view)"
        "ledger (db_of out) = filter (\<lambda>x. r_id x \<notin> set (map r_id gone)) (ledger ?d1)"
        "issued (db_of out) = issued ?d1 @ concat (map rollback_queries gone) @
           (case out of Ok _ \<Rightarrow> [] | Fail _ _ \<Rightarrow> [Begin, Script (r_down (hd rest)), Rollback])"
        "\<forall>e d'. out = Fail e d' \<longrightarrow> rest \<noteq> [] \<and> e = ScriptFailed (r_down (hd rest))"
        "\<forall>d'. out = Ok d' \<longrightarrow> rest = [] \<or> \<not> should_rollback opts migs fm (r_id (hd rest))"
        by blast
      show ?thesis
        using g True
        by (intro exI [of _ "r # gone"] exI [of _ rest]) (auto intro!: filter_cong)
    qed
  qed
qed

lemma should_rollback_m_down:
  "should_rollback opts (map (\<lambda>m. m\<lparr>m_down := f m\<rparr>) migs) fm i = should_rollback opts migs fm i"
  by (cases "migs = []")
     (simp_all add: should_rollback_def file_missing_def force_last_def list_ex_iff last_map)

lemma rollback_loop_m_down:
  "rollback_loop ex opts (map (\<lambda>m. m\<lparr>m_down := f m\<rparr>) migs) fm todo view d =
     rollback_loop ex opts migs fm todo view d"
  by (induction todo arbitrary: view d) (simp_all add: should_rollback_m_down split: outcome.splits)

section \<open>The apply loop\<close>

lemma apply_loop_append:
  "apply_loop ex opts lastId (xs @ ys) d =
     (case apply_loop ex opts lastId xs d of
        Ok d1 \<Rightarrow> apply_loop ex opts lastId ys d1
      | Fail e d1 \<Rightarrow> Fail e d1)"
  by (induction xs arbitrary: d) (simp_all split: outcome.splits)

subsection \<open>The rollback phase on a sorted listing\<close>

lemma filter_not_in_suffix:
  "distinct (map f (xs @ ys)) \<Longrightarrow> filter (\<lambda>x. f x \<notin> set (map f ys)) (xs @ ys) = xs"
  by (auto simp: filter_empty_conv filter_id_conv)

lemma rollback_phase_split:
  assumes "sorted (map r_id L)" and "distinct (map r_id L)"
    and "rollback_phase ex opts migs fm L d = (view, out)"
  shows "\<exists>gone. L = view @ rev gone \<and>
     (\<forall>r \<in> set gone. should_rollback opts migs fm (r_id r)) \<and>
     ledger (db_of out) = filter (\<lambda>x. r_id x \<notin> set (map r_id gone)) (ledger d) \<and>
     issued (db_of out) = issued d @ concat (map rollback_queries gone) @
       (case out of Ok _ \<Rightarrow> [] | Fail _ _ \<Rightarrow> [Begin, Script (r_down (last view)), Rollback]) \<and>
     (\<forall>e d'. out = Fail e d' \<longrightarrow> view \<noteq> [] \<and> e = ScriptFailed (r_down (last view))) \<and>
     (\<forall>d'. out = Ok d' \<longrightarrow> view = [] \<or> \<not> should_rollback opts migs fm (r_id (last view)))"
proof -
  from assms have loop: "rollback_loop ex opts migs fm (rev L) L d = (view, out)"
    by (simp add: rollback_phase_def sort_key_desc_rev)
  from rollback_loop_log [OF loop] obtain gone rest where g:
    "rev L = gone @ rest"
    "\<forall>r \<in> set gone. should_rollback opts migs fm (r_id r)"
    "view = filter (\<lambda>x. r_id x \<notin> set (map r_id gone)) L"
    "ledger (db_of out) = filter (\<lambda>x. r_id x \<notin> set (map r_id gone)) (ledger d)"
    "issued (db_of out) = issued d @ concat (map rollback_queries gone) @
       (case out of Ok _ \<Rightarrow> [] | Fail _ _ \<Rightarrow> [Begin, Script (r_down (hd rest)), Rollback])"
    "\<forall>e d'. out = Fail e d' \<longrightarrow> rest \<noteq> [] \<and> e = ScriptFailed (r_down (hd rest))"
    "\<forall>d'. out = Ok d' \<longrightarrow> rest = [] \<or> \<not> should_rollback opts migs fm (r_id (hd rest))"
    by blast
  from g(1) have L: "L = rev rest @ rev gone"
    by (metis rev_append rev_rev_ident)
  with assms(2) have "filter (\<lambda>x. r_id x \<notin> set (map r_id (rev gone))) (rev rest @ rev gone) = rev rest"
    by (intro filter_not_in_suffix) simp
  with g(3) L have view: "view = rev rest" by simp
  then have hd: "rest \<noteq> [] \<Longrightarrow> hd rest = last view"
    by (simp add: last_rev)
  from view have ne: "rest = [] \<longleftrightarrow> view = []" by simp
  have c1: "L = view @ rev gone" using L view by simp
  have c4: "issued (db_of out) = issued d @ concat (map rollback_queries gone) @
       (case out of Ok _ \<Rightarrow> [] | Fail _ _ \<Rightarrow> [Begin, Script (r_down (last view)), Rollback])"
  proof (cases out)
    case (Ok d')
    with g(5) show ?thesis by simp
  next
    case (Fail e d')
    with g(6) have "rest \<noteq> []" by simp
    with g(5) Fail hd show ?thesis by simp
  qed
  have c5: "\<forall>e d'. out = Fail e d' \<longrightarrow> view \<noteq> [] \<and> e = ScriptFailed (r_down (last view))"
    using g(6) hd ne by metis
  have c6: "\<forall>d'. out = Ok d' \<longrightarrow> view = [] \<or> \<not> should_rollback opts migs fm (r_id (last view))"
    using g(7) hd ne by metis
  from c1 g(2) g(4) c4 c5 c6 show ?thesis
    by blast
qed

subsection \<open>More on the apply loop\<close>

lemma apply_loop_nothing:
  "\<forall>m \<in> set ms. m_id m \<le> lastId \<Longrightarrow> apply_loop ex opts lastId ms d = Ok d"
  by (induction ms) auto

lemma apply_loop_Ok:
  "apply_loop ex opts lastId ms d = Ok d' \<Longrightarrow>
     ledger d' = ledger d @ map row_of (filter (\<lambda>m. lastId < m_id m) ms) \<and>
     issued d' = issued d @ concat (map (apply_queries opts) (filter (\<lambda>m. lastId < m_id m) ms)) \<and>
     distinct (map m_id (filter (\<lambda>m. lastId < m_id m) ms)) \<and>
     set (map m_id (filter (\<lambda>m. lastId < m_id m) ms)) \<inter> set (map r_id (ledger d)) = {}"
proof (induction ms arbitrary: d)
  case Nil
  then show ?case by simp
next
  case (Cons m ms)
  show ?case
  proof (cases "lastId < m_id m")
    case False
    with Cons show ?thesis by simp
  next
    case True
    with Cons.prems obtain d1 where d1: "apply_one ex opts m d = Ok d1"
      "apply_loop ex opts lastId ms d1 = Ok d'"
      by (auto split: outcome.splits)
    from apply_one_OkD [OF d1(1)] have fresh: "m_id m \<notin> set (map r_id (ledger d))"
      and l1: "ledger d1 = ledger d @ [row_of m]" and i1: "issued d1 = issued d @ apply_queries opts m"
      by auto
    from Cons.IH [OF d1(2)] l1 i1 fresh True show ?thesis
      by (auto simp: row_of_def)
  qed
qed

lemma apply_loop_log:
  "\<exists>qs. issued (db_of (apply_loop ex opts lastId ms d)) = issued d @ qs \<and>
     (\<forall>i. Delete i \<notin> set qs) \<and> (\<forall>r. Insert r \<in> set qs \<longrightarrow> lastId < r_id r)"
proof (induction ms arbitrary: d)
  case Nil
  then show ?case by simp
next
  case (Cons m ms)
  show ?case
  proof (cases "lastId < m_id m")
    case False
    with Cons.IH [of d] show ?thesis by simp
  next
    case True
    show ?thesis
    proof (cases "apply_one ex opts m d")
      case (Fail e d1)
      from apply_one_FailD(4) [OF Fail] obtain qs where qs: "issued d1 = issued d @ qs"
        "\<forall>i. Delete i \<notin> set qs" "\<forall>r. Insert r \<in> set qs \<longrightarrow> r = row_of m"
        by blast
      from qs(3) True have "\<forall>r. Insert r \<in> set qs \<longrightarrow> lastId < r_id r"
        by auto
      with qs(1,2) True Fail show ?thesis
        by (intro exI [of _ qs]) simp
    next
      case (Ok d1)
      from apply_one_OkD(2) [OF Ok] have i1: "issued d1 = issued d @ apply_queries opts m"
        by auto
      from Cons.IH [of d1] obtain qs where qs:
        "issued (db_of (apply_loop ex opts lastId ms d1)) = issued d1 @ qs"
        "\<forall>i. Delete i \<notin> set qs" "\<forall>r. Insert r \<in> set qs \<longrightarrow> lastId < r_id r"
        by blast
      show ?thesis
        using True Ok i1 qs
        by (intro exI [of _ "apply_queries opts m @ qs"])
           (auto simp: apply_queries_def)
    qed
  qed
qed

lemma apply_loop_no_violation:
  assumes "distinct (map m_id ms)"
    and "\<forall>m \<in> set ms. lastId < m_id m \<longrightarrow> m_id m \<notin> set (map r_id (ledger d))"
  shows "apply_loop ex opts lastId ms d \<noteq> Fail (UniqueViolation i) d'"
  using assms
proof (induction ms arbitrary: d)
  case Nil
  then show ?case by simp
next
  case (Cons m ms)
  show ?case
  proof (cases "lastId < m_id m")
    case False
    with Cons show ?thesis by simp
  next
    case True
    show ?thesis
    proof (cases "apply_one ex opts m d")
      case (Fail e d1)
      from apply_one_FailD(5) [OF Fail] Cons.prems(2) True Fail show ?thesis
        by auto
    next
      case (Ok d1)
      from apply_one_OkD(2) [OF Ok] have l1: "ledger d1 = ledger d @ [row_of m]"
        by auto
      from Cons.prems(1) have "m_id m \<notin> m_id ` set ms" by simp
      then have "\<forall>m' \<in> set ms. m_id m' \<noteq> m_id m"
        by (metis imageI)
      with Cons.prems(2) l1 have
        "\<forall>m' \<in> set ms. lastId < m_id m' \<longrightarrow> m_id m' \<notin> set (map r_id (ledger d1))"
        by auto
      with Cons.IH [of d1] Cons.prems(1) True Ok show ?thesis
        by simp
    qed
  qed
qed

section \<open>The phases of a run\<close>

lemma reconcile_phases:
  "\<exists>fm d1 view out. audit_phase ex migs d = (fm, Ok d1) \<and>
     rollback_phase ex opts migs fm (select_all d) d1 = (view, out) \<and>
     reconcile ex opts migs d =
       (case out of Fail e d2 \<Rightarrow> Fail e d2 | Ok d2 \<Rightarrow> apply_loop ex opts (last_id view) migs d2)"
proof -
  from audit_loop_result [of ex migs "select_all d" "- 1" d] obtain fm d1 where
    a: "audit_phase ex migs d = (fm, Ok d1)"
    by (auto simp: audit_phase_def)
  obtain view out where r: "rollback_phase ex opts migs fm (select_all d) d1 = (view, out)"
    by (cases "rollback_phase ex opts migs fm (select_all d) d1")
  from a r show ?thesis
    by (auto simp: reconcile_def split: outcome.splits)
qed

lemma deleted_ids_append [simp]: "deleted_ids (xs @ ys) = deleted_ids xs @ deleted_ids ys"
  by (induction xs rule: deleted_ids.induct) simp_all

lemma deleted_ids_rollbacks [simp]:
  "deleted_ids (concat (map rollback_queries gone)) = map r_id gone"
  by (induction gone) (simp_all add: rollback_queries_def)

lemma deleted_ids_applies [simp]:
  "deleted_ids (concat (map (apply_queries opts) ms)) = []"
  by (induction ms) (simp_all add: apply_queries_def apply_scripts_def)

lemma deleted_ids_backfills [simp]:
  "deleted_ids (concat (map (backfill_queries migs) rs)) = []"
  by (induction rs) (simp_all add: backfill_queries_def split: option.splits)

lemma r_id_backfill [simp]: "r_id (backfill migs r) = r_id r"
  by (simp add: backfill_def split: option.splits)

lemma last_id_ge:
  "sorted (map r_id view) \<Longrightarrow> x \<in> set view \<Longrightarrow> r_id x \<le> last_id view"
  by (induction view) (auto simp: last_id_def)

lemma reconcile_run:
  assumes "distinct (map r_id (ledger d))"
  shows "\<exists>fm d1 view gone out.
     audit_phase ex migs d = (fm, Ok d1) \<and>
     ledger d1 = map (backfill migs) (ledger d) \<and> schema d1 = schema d \<and>
     issued d1 = issued d @ concat (map (backfill_queries migs) (select_all d)) \<and>
     rollback_phase ex opts migs fm (select_all d) d1 = (view, out) \<and>
     select_all d = view @ rev gone \<and>
     (\<forall>r \<in> set gone. should_rollback opts migs fm (r_id r)) \<and>
     ledger (db_of out) = filter (\<lambda>x. r_id x \<notin> set (map r_id gone)) (ledger d1) \<and>
     issued (db_of out) = issued d1 @ concat (map rollback_queries gone) @
       (case out of Ok _ \<Rightarrow> [] | Fail _ _ \<Rightarrow> [Begin, Script (r_down (last view)), Rollback]) \<and>
     (\<forall>e d'. out = Fail e d' \<longrightarrow> view \<noteq> [] \<and> e = ScriptFailed (r_down (last view))) \<and>
     (\<forall>d'. out = Ok d' \<longrightarrow> view = [] \<or> \<not> should_rollback opts migs fm (r_id (last view))) \<and>
     reconcile ex opts migs d =
       (case out of Fail e d2 \<Rightarrow> Fail e d2 | Ok d2 \<Rightarrow> apply_loop ex opts (last_id view) migs d2)"
proof -
  from audit_phase_result [OF assms, of ex migs] obtain fm d1 where a:
    "audit_phase ex migs d = (fm, Ok d1)" "schema d1 = schema d"
    "issued d1 = issued d @ concat (map (backfill_queries migs) (select_all d))"
    "ledger d1 = map (backfill migs) (ledger d)"
    by blast
  obtain view out where r: "rollback_phase ex opts migs fm (select_all d) d1 = (view, out)"
    by (cases "rollback_phase ex opts migs fm (select_all d) d1")
  from assms have dist: "distinct (map r_id (select_all d))"
    by (simp add: select_all_distinct)
  from rollback_phase_split [OF select_all_sorted dist r] obtain gone where g:
    "select_all d = view @ rev gone"
    "\<forall>r \<in> set gone. should_rollback opts migs fm (r_id r)"
    "ledger (db_of out) = filter (\<lambda>x. r_id x \<notin> set (map r_id gone)) (ledger d1)"
    "issued (db_of out) = issued d1 @ concat (map rollback_queries gone) @
       (case out of Ok _ \<Rightarrow> [] | Fail _ _ \<Rightarrow> [Begin, Script (r_down (last view)), Rollback])"
    "\<forall>e d'. out = Fail e d' \<longrightarrow> view \<noteq> [] \<and> e = ScriptFailed (r_down (last view))"
    "\<forall>d'. out = Ok d' \<longrightarrow> view = [] \<or> \<not> should_rollback opts migs fm (r_id (last view))"
    by blast
  have rec: "reconcile ex opts migs d =
       (case out of Fail e d2 \<Rightarrow> Fail e d2 | Ok d2 \<Rightarrow> apply_loop ex opts (last_id view) migs d2)"
    using a(1) r by (simp add: reconcile_def split: outcome.splits)
  from a r g rec show ?thesis by blast
qed

text \<open>The ids that remain after the rollback phase are those of the rows still in view.\<close>

lemma ids_after_rollback:
  assumes "distinct (map r_id (ledger d))" and "select_all d = view @ rev gone"
  shows "r_id ` set (filter (\<lambda>x. r_id x \<notin> set (map r_id gone)) (map (backfill migs) (ledger d)))
           = r_id ` set view"
proof -
  from assms have dist: "distinct (map r_id (view @ rev gone))"
    by (metis select_all_distinct)
  have sets: "set (ledger d) = set view \<union> set gone"
    using assms(2) set_select_all [of d] by auto
  from dist have disj: "r_id ` set view \<inter> r_id ` set gone = {}"
    by auto
  show ?thesis
  proof (intro set_eqI iffI)
    fix i
    assume "i \<in> r_id ` set (filter (\<lambda>x. r_id x \<notin> set (map r_id gone))
                 (map (backfill migs) (ledger d)))"
    then obtain x where x: "x \<in> set (ledger d)" "r_id x \<notin> r_id ` set gone" "i = r_id x"
      by auto
    with sets have "x \<in> set view" by auto
    with x(3) show "i \<in> r_id ` set view" by simp
  next
    fix i
    assume "i \<in> r_id ` set view"
    then obtain x where x: "x \<in> set view" "i = r_id x" by auto
    with disj have "r_id x \<notin> r_id ` set gone" by auto
    moreover from x sets have "backfill migs x \<in> set (map (backfill migs) (ledger d))" by simp
    ultimately have "backfill migs x \<in> set (filter (\<lambda>x. r_id x \<notin> set (map r_id gone))
                 (map (backfill migs) (ledger d)))"
      by simp
    then have "r_id (backfill migs x) \<in> r_id ` set (filter (\<lambda>x. r_id x \<notin> set (map r_id gone))
                 (map (backfill migs) (ledger d)))"
      by (rule imageI)
    with x(2) show "i \<in> r_id ` set (filter (\<lambda>x. r_id x \<notin> set (map r_id gone))
                 (map (backfill migs) (ledger d)))"
      by simp
  qed
qed

subsection \<open>Running the code on an example\<close>

lemmas run_simps =
  reconcile_def audit_phase_def select_all_def rollback_phase_def should_rollback_def
  file_missing_def hash_rollback_def force_last_def rollback_one_eq apply_one_eq last_id_def
  sql_engine_def empty_db_def mig_def rw_def row_of_def received_def rollback_queries_def
  apply_queries_def apply_scripts_def

subsection \<open>A successful run\<close>

lemma sort_key_unique:
  assumes "distinct (map f xs)" and "mset ys = mset xs" and "sorted (map f ys)"
  shows "sort_key f xs = ys"
proof (rule properties_for_sort_key [OF assms(2) _ assms(3)])
  fix k assume k: "k \<in> set ys"
  from assms(2) have "mset (map f ys) = mset (map f xs)" by simp
  with assms(1) have dy: "distinct (map f ys)" by (metis mset_eq_imp_distinct_iff)
  from k assms(2) have kx: "k \<in> set xs" by (metis mset_eq_setD)
  show "filter (\<lambda>x. f k = f x) ys = filter (\<lambda>x. f k = f x) xs"
    using filter_key_distinct [OF dy k] filter_key_distinct [OF assms(1) kx] by simp
qed

lemma reconcile_Ok:
  assumes "distinct (map r_id (ledger d))" and "reconcile ex opts migs d = Ok d'"
  shows "\<exists>fm kept gone.
     fm = fst (audit_phase ex migs d) \<and>
     select_all d = kept @ rev gone \<and>
     (\<forall>r \<in> set gone. should_rollback opts migs fm (r_id r)) \<and>
     (kept = [] \<or> \<not> should_rollback opts migs fm (r_id (last kept))) \<and>
     ledger d' = filter (\<lambda>x. r_id x \<notin> set (map r_id gone)) (map (backfill migs) (ledger d)) @
                 map row_of (filter (\<lambda>m. last_id kept < m_id m) migs) \<and>
     issued d' = issued d @ concat (map (backfill_queries migs) (select_all d)) @
                 concat (map rollback_queries gone) @
                 concat (map (apply_queries opts) (filter (\<lambda>m. last_id kept < m_id m) migs)) \<and>
     distinct (map m_id (filter (\<lambda>m. last_id kept < m_id m) migs))"
proof -
  from reconcile_run [OF assms(1), of ex migs opts] obtain fm d1 view gone out where r:
    "audit_phase ex migs d = (fm, Ok d1)"
    "ledger d1 = map (backfill migs) (ledger d)"
    "issued d1 = issued d @ concat (map (backfill_queries migs) (select_all d))"
    "select_all d = view @ rev gone"
    "\<forall>r \<in> set gone. should_rollback opts migs fm (r_id r)"
    "ledger (db_of out) = filter (\<lambda>x. r_id x \<notin> set (map r_id gone)) (ledger d1)"
    "issued (db_of out) = issued d1 @ concat (map rollback_queries gone) @
       (case out of Ok _ \<Rightarrow> [] | Fail _ _ \<Rightarrow> [Begin, Script (r_down (last view)), Rollback])"
    "\<forall>d'. out = Ok d' \<longrightarrow> view = [] \<or> \<not> should_rollback opts migs fm (r_id (last view))"
    "reconcile ex opts migs d =
       (case out of Fail e d2 \<Rightarrow> Fail e d2 | Ok d2 \<Rightarrow> apply_loop ex opts (last_id view) migs d2)"
    by blast
  from r(9) assms(2) obtain d2 where out: "out = Ok d2"
    and ap: "apply_loop ex opts (last_id view) migs d2 = Ok d'"
    by (cases out) auto
  from apply_loop_Ok [OF ap] have a:
    "ledger d' = ledger d2 @ map row_of (filter (\<lambda>m. last_id view < m_id m) migs)"
    "issued d' = issued d2 @ concat (map (apply_queries opts) (filter (\<lambda>m. last_id view < m_id m) migs))"
    "distinct (map m_id (filter (\<lambda>m. last_id view < m_id m) migs))"
    by auto
  from r(6,7) out have d2:
    "ledger d2 = filter (\<lambda>x. r_id x \<notin> set (map r_id gone)) (ledger d1)"
    "issued d2 = issued d1 @ concat (map rollback_queries gone)"
    by auto
  have c1: "fm = fst (audit_phase ex migs d)" using r(1) by simp
  have c4: "view = [] \<or> \<not> should_rollback opts migs fm (r_id (last view))"
    using r(8) out by blast
  have c5: "ledger d' = filter (\<lambda>x. r_id x \<notin> set (map r_id gone)) (map (backfill migs) (ledger d)) @
                 map row_of (filter (\<lambda>m. last_id view < m_id m) migs)"
    using a(1) d2(1) r(2) by simp
  have c6: "issued d' = issued d @ concat (map (backfill_queries migs) (select_all d)) @
                 concat (map rollback_queries gone) @
                 concat (map (apply_queries opts) (filter (\<lambda>m. last_id view < m_id m) migs))"
    using a(2) d2(2) r(3) by simp
  from c1 r(4) r(5) c4 c5 c6 a(3) show ?thesis by blast
qed

text \<open>The listing after a successful run: the rows kept, backfilled, then the rows applied.\<close>

lemma select_all_after_run:
  assumes "distinct (map r_id (ledger d))" and "select_all d = kept @ rev gone"
    and "ledger d' = filter (\<lambda>x. r_id x \<notin> set (map r_id gone)) (map (backfill migs) (ledger d)) @
                 map row_of (filter (\<lambda>m. last_id kept < m_id m) migs)"
    and "distinct (map m_id (filter (\<lambda>m. last_id kept < m_id m) migs))"
  shows "distinct (map r_id (ledger d'))"
    and "select_all d' = map (backfill migs) kept @
           sort_key r_id (map row_of (filter (\<lambda>m. last_id kept < m_id m) migs))"
proof -
  let ?new = "filter (\<lambda>m. last_id kept < m_id m) migs"
  let ?old = "filter (\<lambda>x. r_id x \<notin> set (map r_id gone)) (map (backfill migs) (ledger d))"
  from assms(1,2) have dist: "distinct (map r_id (kept @ rev gone))"
    by (metis select_all_distinct)
  have sorted_all: "sorted (map r_id (kept @ rev gone))"
    using select_all_sorted [of d] assms(2) by simp
  then have sk: "sorted (map r_id kept)" by (simp add: sorted_append)
  have ids_old: "r_id ` set ?old = r_id ` set kept"
    using ids_after_rollback [OF assms(1,2)] by simp
  have le: "r_id x \<le> last_id kept" if "x \<in> set kept" for x
    using last_id_ge [OF sk that] .
  have d_old: "distinct (map r_id ?old)"
    using assms(1) by (simp add: distinct_map_filter comp_def)
  have d_new: "distinct (map r_id (map row_of ?new))"
    using assms(4) by (simp add: comp_def)
  have disj: "r_id ` set ?old \<inter> r_id ` set (map row_of ?new) = {}"
    unfolding ids_old using le by fastforce
  show dl: "distinct (map r_id (ledger d'))"
    unfolding assms(3) using d_old d_new disj by (simp add: image_image)
  have "mset (filter (\<lambda>x. r_id x \<notin> r_id ` set gone) (ledger d)) =
          mset (filter (\<lambda>x. r_id x \<notin> r_id ` set gone) (select_all d))"
    by (simp add: select_all_def)
  also have "filter (\<lambda>x. r_id x \<notin> r_id ` set gone) (select_all d) = kept"
    unfolding assms(2) using filter_not_in_suffix [OF dist] by simp
  finally have "mset (map (backfill migs) (filter (\<lambda>x. r_id x \<notin> r_id ` set gone) (ledger d)))
               = mset (map (backfill migs) kept)"
    by (metis mset_map)
  moreover have "?old = map (backfill migs) (filter (\<lambda>x. r_id x \<notin> r_id ` set gone) (ledger d))"
    by (simp add: filter_map comp_def)
  ultimately have m_old: "mset ?old = mset (map (backfill migs) kept)" by simp
  let ?ys = "map (backfill migs) kept @ sort_key r_id (map row_of ?new)"
  have m_all: "mset ?ys = mset (ledger d')"
    unfolding assms(3) using m_old by simp
  have s_ys: "sorted (map r_id ?ys)"
    using sk le by (auto simp: sorted_append comp_def dest!: le) 
  show "select_all d' = ?ys"
    unfolding select_all_def by (rule sort_key_unique [OF dl m_all s_ys])
qed

subsection \<open>The statements of a run\<close>

lemma Delete_in_rollback_queries:
  "x \<in> set gone \<Longrightarrow> Delete (r_id x) \<in> set (concat (map rollback_queries gone))"
  by (induction gone) (auto simp: rollback_queries_def)

lemma backfill_queries_set:
  "q \<in> set (concat (map (backfill_queries migs) rs)) \<Longrightarrow> \<exists>h i. q = UpdateHash h i"
  by (induction rs) (auto simp: backfill_queries_def split: option.splits if_splits)

subsection \<open>Condition (c) and a rerun with \<^verbatim>\<open>force\<close>\<close>

lemma Max_ids_sorted:
  fixes f :: "'a \<Rightarrow> int"
  shows "sorted (map f xs) \<Longrightarrow> xs \<noteq> [] \<Longrightarrow> Max (set (map f xs)) = f (last xs)"
proof (induction xs)
  case Nil
  then show ?case by simp
next
  case (Cons x xs)
  show ?case
  proof (cases "xs = []")
    case True
    then show ?thesis by simp
  next
    case False
    with Cons have IH: "Max (set (map f xs)) = f (last xs)" by simp
    from Cons.prems False have "f x \<le> f (last xs)" by simp
    with IH False show ?thesis by (simp add: max_def)
  qed
qed

lemma force_last_eq_spec:
  assumes "sorted (map m_id migs)" and "migs \<noteq> []" and "sorted (map r_id view)" and "view \<noteq> []"
  shows "force_last opts migs (r_id (last view)) = spec_force_last opts view migs (r_id (last view))"
  using Max_ids_sorted [OF assms(1,2)] Max_ids_sorted [OF assms(3,4)]
  by (auto simp: force_last_def spec_force_last_def)

lemma rollback_loop_eq_spec:
  assumes "sorted (map m_id migs)"
    and "sorted (map r_id (rev todo))" and "distinct (map r_id todo)"
  shows "rollback_loop ex opts migs fm todo (rev todo) d =
         spec_rollback_loop ex opts migs fm todo (rev todo) d"
  using assms(2,3)
proof (induction todo arbitrary: d)
  case Nil
  then show ?case by simp
next
  case (Cons r rs)
  from Cons.prems have s: "sorted (map r_id (rev rs))" and dd: "distinct (map r_id rs)"
    by (simp_all add: sorted_append)
  from Cons.prems(2) have "r_id r \<notin> r_id ` set rs" by simp
  then have "\<forall>x \<in> set rs. r_id x \<noteq> r_id r" by (metis imageI)
  then have flt: "filter (\<lambda>x. r_id x \<noteq> r_id r) (rev (r # rs)) = rev rs"
    by (simp add: filter_id_conv)
  have cond: "should_rollback opts migs fm (r_id r) =
      (file_missing migs (r_id r) \<or> hash_rollback opts fm (r_id r)
         \<or> spec_force_last opts (rev (r # rs)) migs (r_id r))"
  proof (cases "migs = []")
    case True
    then show ?thesis by (simp add: should_rollback_def file_missing_def)
  next
    case False
    from force_last_eq_spec [OF assms(1) False Cons.prems(1)]
    show ?thesis by (simp add: should_rollback_def)
  qed
  show ?case
    using Cons.IH [OF s dd] cond flt
    by (simp split: outcome.splits)
qed


lemma audit_phase_clean:
  assumes "\<forall>r \<in> set (ledger d). backfill_queries migs r = []"
  shows "audit_phase ex migs d = (fst (audit_phase ex migs d), Ok d)"
proof -
  from audit_loop_result [of ex migs "select_all d" "- 1" d] obtain d' where d':
    "audit_loop ex migs (select_all d) (- 1) d = (fst (audit_loop ex migs (select_all d) (- 1) d), Ok d')"
    "schema d' = schema d" "saved d' = saved d"
    "issued d' = issued d @ concat (map (backfill_queries migs) (select_all d))"
    "ledger d' =
       map (\<lambda>x. if r_id x \<in> set (sentinel_ids migs (select_all d)) then set_hash migs x else x) (ledger d)"
    by blast
  from assms have q: "concat (map (backfill_queries migs) (select_all d)) = []"
    by (simp add: set_select_all)
  from assms have "sentinel_ids migs (select_all d) = []"
    by (auto simp: sentinel_ids_def set_select_all backfill_queries_def filter_empty_conv
        split: option.splits if_splits)
  with d'(5) have "ledger d' = ledger d" by simp
  with d'(2,3,4) q have "d' = d" by simp
  with d'(1) show ?thesis by (simp add: audit_phase_def)
qed

lemma rollback_loop_stop:
  "todo = [] \<or> \<not> should_rollback opts migs fm (r_id (hd todo)) \<Longrightarrow>
     rollback_loop ex opts migs fm todo view d = (view, Ok d)"
  by (cases todo) auto

lemma find_distinct_id:
  "distinct (map m_id migs) \<Longrightarrow> m \<in> set migs \<Longrightarrow> find (\<lambda>x. m_id x = m_id m) migs = Some m"
proof (induction migs)
  case Nil
  then show ?case by simp
next
  case (Cons a migs)
  show ?case
  proof (cases "m = a")
    case True
    then show ?thesis by simp
  next
    case False
    with Cons.prems have m: "m \<in> set migs" by simp
    from Cons.prems(1) have "m_id a \<notin> m_id ` set migs" by simp
    with m have "m_id a \<noteq> m_id m" by (metis imageI)
    with Cons m show ?thesis by simp
  qed
qed

lemma file_missing_iff: "file_missing migs i \<longleftrightarrow> i \<notin> m_id ` set migs"
  by (auto simp: file_missing_def list_ex_iff)


lemma last_id_map_row_of:
  "last_id (map row_of ms) = (if ms = [] then 0 else m_id (last ms))"
  by (simp add: last_id_def last_map)

lemma force_last_rerun:
  assumes fl: "force opts = Last"
    and ne: "migs \<noteq> []"
    and asc: "sorted_wrt (<) (map m_id migs)"
    and pos: "\<forall>m \<in> set migs. 0 < m_id m"
    and nil: "\<forall>m \<in> set migs. m_hash m \<noteq> ''nil''"
    and utd: "select_all d = map row_of migs"
    and run: "exec_all ex (m_down (last migs) # apply_scripts opts (last migs)) (schema d) = Some s"
  shows "reconcile ex opts migs d =
     Ok (d\<lparr>ledger := filter (\<lambda>x. r_id x \<noteq> m_id (last migs)) (ledger d) @ [row_of (last migs)],
           schema := s, saved := None,
           issued := issued d @ rollback_queries (row_of (last migs)) @
                     apply_queries opts (last migs)\<rparr>)"
proof -
  let ?n = "last migs" and ?bs = "butlast migs"
  from ne have split: "migs = ?bs @ [?n]" by simp
  from asc have sm: "sorted (map m_id migs)" and dm: "distinct (map m_id migs)"
    by (simp_all add: strict_sorted_iff)
  have ids: "map r_id (select_all d) = map m_id migs"
    unfolding utd by (simp add: comp_def)
  have sl: "sorted (map r_id (select_all d))" by (rule select_all_sorted)
  have dl: "distinct (map r_id (select_all d))" using ids dm by simp
  have set_led: "set (ledger d) = row_of ` set migs"
    using set_select_all [of d] utd by simp
  have fnd: "find (\<lambda>x. m_id x = m_id m) migs = Some m" if "m \<in> set migs" for m
    using find_distinct_id [OF dm that] .
  have clean: "\<forall>r \<in> set (ledger d). backfill_queries migs r = []"
    unfolding set_led using fnd nil by (auto simp: backfill_queries_def row_of_def)
  have nomis: "\<forall>r \<in> set (select_all d). \<not> mismatch migs r"
    unfolding utd using fnd by (auto simp: mismatch_def row_of_def)
  have fm: "fst (audit_phase ex migs d) = - 1"
    unfolding audit_phase_def by (rule audit_fm_no_mismatch [OF nomis])
  have audit: "audit_phase ex migs d = (- 1, Ok d)"
    using audit_phase_clean [OF clean, of ex] fm by simp
  from run obtain s1 where s1: "ex (m_down ?n) (schema d) = Some s1"
    and s2: "exec_all ex (apply_scripts opts ?n) s1 = Some s"
    by (auto split: option.splits)
  let ?d1 = "d\<lparr>ledger := filter (\<lambda>x. r_id x \<noteq> m_id ?n) (ledger d), schema := s1,
               saved := None, issued := issued d @ rollback_queries (row_of ?n)\<rparr>"
  have r1: "rollback_one ex (row_of ?n) d = Ok ?d1"
    using s1 by (simp add: rollback_one_eq row_of_def)
  have nin: "m_id ?n \<in> m_id ` set migs" using ne by simp
  have sr_n: "should_rollback opts migs (- 1) (m_id ?n)"
    using fl by (simp add: should_rollback_def force_last_def)
  have "distinct (map m_id (?bs @ [?n]))" using dm split by metis
  then have nb: "m_id ?n \<notin> m_id ` set ?bs" by simp
  have keep: "?bs = [] \<or> \<not> should_rollback opts migs (- 1) (m_id (last ?bs))"
  proof (cases "?bs = []")
    case True
    then show ?thesis by simp
  next
    case False
    then have mem: "last ?bs \<in> set ?bs" by simp
    then have "last ?bs \<in> set migs" by (rule in_set_butlastD)
    then have "\<not> file_missing migs (m_id (last ?bs))" by (simp add: file_missing_iff)
    moreover from mem nb have "m_id (last ?bs) \<noteq> m_id ?n" by (metis imageI)
    ultimately show ?thesis
      by (simp add: should_rollback_def hash_rollback_def force_last_def)
  qed
  have flt: "filter (\<lambda>x. r_id x \<noteq> m_id ?n) (map row_of migs) = map row_of ?bs"
  proof -
    from nb have "\<forall>x \<in> set ?bs. m_id x \<noteq> m_id ?n" by (metis imageI)
    then have "filter (\<lambda>x. m_id x \<noteq> m_id ?n) ?bs = ?bs" by (simp add: filter_id_conv)
    then have "filter (\<lambda>x. r_id x \<noteq> m_id ?n) (map row_of (?bs @ [?n])) = map row_of ?bs"
      by (simp add: filter_map comp_def)
    with split show ?thesis by simp
  qed
  have rb: "rollback_phase ex opts migs (- 1) (select_all d) d = (map row_of ?bs, Ok ?d1)"
  proof -
    have "rollback_phase ex opts migs (- 1) (select_all d) d =
            rollback_loop ex opts migs (- 1) (rev (map row_of migs)) (map row_of migs) d"
      using sort_key_desc_rev [OF sl dl] by (simp add: rollback_phase_def utd)
    also have "rev (map row_of migs) = row_of ?n # rev (map row_of ?bs)"
    proof -
      have "rev (map row_of (?bs @ [?n])) = row_of ?n # rev (map row_of ?bs)" by simp
      with split show ?thesis by simp
    qed
    also have "rollback_loop ex opts migs (- 1) (row_of ?n # rev (map row_of ?bs)) (map row_of migs) d
                 = rollback_loop ex opts migs (- 1) (rev (map row_of ?bs)) (map row_of ?bs) ?d1"
      using sr_n r1 flt by simp
    also have "\<dots> = (map row_of ?bs, Ok ?d1)"
    proof (rule rollback_loop_stop)
      show "rev (map row_of ?bs) = [] \<or>
            \<not> should_rollback opts migs (- 1) (r_id (hd (rev (map row_of ?bs))))"
        using keep by (cases "?bs = []") (simp_all add: hd_rev last_map)
    qed
    finally show ?thesis .
  qed
  let ?lid = "last_id (map row_of ?bs)"
  have below: "\<forall>m \<in> set ?bs. m_id m \<le> ?lid"
  proof
    fix m assume m: "m \<in> set ?bs"
    from sm split have "sorted (map m_id ?bs)"
      by (metis map_append sorted_append)
    then have "sorted (map r_id (map row_of ?bs))" by (simp add: comp_def)
    from last_id_ge [OF this, of "row_of m"] m show "m_id m \<le> ?lid" by simp
  qed
  have above: "?lid < m_id ?n"
  proof (cases "?bs = []")
    case True
    from ne have "?n \<in> set migs" by simp
    with pos have "0 < m_id ?n" by blast
    with True show ?thesis by (simp add: last_id_def)
  next
    case False
    then have mem: "last ?bs \<in> set ?bs" by simp
    from asc split have "sorted_wrt (<) (map m_id (?bs @ [?n]))" by simp
    then have "\<forall>x \<in> set ?bs. m_id x < m_id ?n"
      by (simp add: sorted_wrt_append)
    with mem False show ?thesis by (simp add: last_id_map_row_of)
  qed
  have fresh: "m_id ?n \<notin> set (map r_id (ledger ?d1))" by auto
  have ap1: "apply_one ex opts ?n ?d1 =
      Ok (?d1\<lparr>ledger := ledger ?d1 @ [row_of ?n], schema := s, saved := None,
              issued := issued ?d1 @ apply_queries opts ?n\<rparr>)"
    by (rule apply_one_OkI [OF fresh]) (simp add: s2)
  have "apply_loop ex opts ?lid (?bs @ [?n]) ?d1 =
      Ok (?d1\<lparr>ledger := ledger ?d1 @ [row_of ?n], schema := s, saved := None,
              issued := issued ?d1 @ apply_queries opts ?n\<rparr>)"
    unfolding apply_loop_append apply_loop_nothing [OF below]
    using above ap1 by simp
  with split have ap: "apply_loop ex opts ?lid migs ?d1 =
      Ok (?d1\<lparr>ledger := ledger ?d1 @ [row_of ?n], schema := s, saved := None,
              issued := issued ?d1 @ apply_queries opts ?n\<rparr>)"
    by simp
  have "reconcile ex opts migs d = apply_loop ex opts ?lid migs ?d1"
    by (simp add: reconcile_def audit rb)
  with ap show ?thesis by simp
qed

subsection \<open>A run after a successful run\<close>

lemma find_filter_implied:
  "(\<And>x. P x \<Longrightarrow> Q x) \<Longrightarrow> find P (filter Q xs) = find P xs"
  by (induction xs) auto

lemma find_applied:
  assumes "distinct (map m_id (filter (\<lambda>m. lid < m_id m) migs))"
    and "m \<in> set migs" and "lid < m_id m"
  shows "find (\<lambda>x. m_id x = m_id m) migs = Some m"
proof -
  have "find (\<lambda>x. m_id x = m_id m) (filter (\<lambda>m. lid < m_id m) migs) = Some m"
    using assms by (intro find_distinct_id) auto
  moreover have "find (\<lambda>x. m_id x = m_id m) (filter (\<lambda>m. lid < m_id m) migs) =
                 find (\<lambda>x. m_id x = m_id m) migs"
    using assms(3) by (intro find_filter_implied) simp
  ultimately show ?thesis by simp
qed

lemma backfill_idem: "backfill migs (backfill migs r) = backfill migs r"
  by (simp add: backfill_def split: option.splits)

lemma backfill_row_of:
  "find (\<lambda>x. m_id x = m_id m) migs = Some m \<Longrightarrow> backfill migs (row_of m) = row_of m"
  by (simp add: backfill_def row_of_def)

lemma mismatch_row_of:
  "find (\<lambda>x. m_id x = m_id m) migs = Some m \<Longrightarrow> \<not> mismatch migs (row_of m)"
  by (simp add: mismatch_def row_of_def)

lemma mismatch_backfill:
  "mismatch migs (backfill migs r) \<Longrightarrow> mismatch migs r"
  by (auto simp: mismatch_def backfill_def split: option.splits if_splits)

lemma find_Some_mem: "find P xs = Some x \<Longrightarrow> x \<in> set xs \<and> P x"
  by (induction xs) (auto split: if_splits)

lemma mismatch_id:
  assumes "mismatch migs r"
  shows "r_id r \<in> m_id ` set migs"
proof -
  from assms obtain mf where "find (\<lambda>x. m_id x = r_id r) migs = Some mf"
    by (auto simp: mismatch_def split: option.splits)
  from find_Some_mem [OF this] show ?thesis by (metis imageI)
qed

lemma backfill_fixed_hash:
  assumes "backfill migs r = r" and "find (\<lambda>x. m_id x = r_id r) migs = Some mf"
    and "r_hash r = ''nil''"
  shows "m_hash mf = ''nil''"
proof -
  from assms have "r\<lparr>r_hash := m_hash mf\<rparr> = r" by (simp add: backfill_def)
  then have "r_hash (r\<lparr>r_hash := m_hash mf\<rparr>) = r_hash r" by simp
  with assms(3) show ?thesis by simp
qed

lemma backfill_queries_fixed:
  assumes "backfill migs r = r"
  shows "backfill_queries migs r = [] \<or> backfill_queries migs r = [UpdateHash ''nil'' (r_id r)]"
proof (cases "find (\<lambda>x. m_id x = r_id r) migs")
  case None
  then show ?thesis by (simp add: backfill_queries_def)
next
  case (Some mf)
  show ?thesis
  proof (cases "r_hash r = ''nil''")
    case True
    from backfill_fixed_hash [OF assms Some True] Some True show ?thesis
      by (simp add: backfill_queries_def)
  next
    case False
    with Some show ?thesis by (simp add: backfill_queries_def)
  qed
qed

lemma backfill_queries_no_nil:
  assumes "\<forall>m \<in> set migs. m_hash m \<noteq> ''nil''" and "backfill migs r = r"
  shows "backfill_queries migs r = []"
proof (cases "find (\<lambda>x. m_id x = r_id r) migs")
  case None
  then show ?thesis by (simp add: backfill_queries_def)
next
  case (Some mf)
  with find_Some_mem [OF Some] assms(1) have "m_hash mf \<noteq> ''nil''" by simp
  with backfill_fixed_hash [OF assms(2) Some] Some show ?thesis
    by (auto simp: backfill_queries_def)
qed


lemma rollback_loop_stop_rev:
  "L = [] \<or> \<not> should_rollback opts migs fm (r_id (last L)) \<Longrightarrow>
     rollback_loop ex opts migs fm (rev L) view d = (view, Ok d)"
  by (cases L rule: rev_cases) auto

lemma last_id_last: "L \<noteq> [] \<Longrightarrow> last_id L = r_id (last L)"
  by (simp add: last_id_def)

lemma second_run:
  assumes nf: "force opts = NoForce"
    and dl: "distinct (map r_id (ledger d))"
    and nn: "\<forall>m \<in> set migs. 0 \<le> m_id m"
    and run: "reconcile ex opts migs d = Ok d1"
  shows "reconcile ex opts migs d1 =
           Ok (d1\<lparr>issued := issued d1 @ concat (map (backfill_queries migs) (select_all d1))\<rparr>)"
    and "\<forall>r \<in> set (ledger d1). backfill migs r = r"
proof -
  from reconcile_Ok [OF dl run] obtain fm kept gone where r:
    "fm = fst (audit_phase ex migs d)"
    "select_all d = kept @ rev gone"
    "kept = [] \<or> \<not> should_rollback opts migs fm (r_id (last kept))"
    "ledger d1 = filter (\<lambda>x. r_id x \<notin> set (map r_id gone)) (map (backfill migs) (ledger d)) @
                 map row_of (filter (\<lambda>m. last_id kept < m_id m) migs)"
    "distinct (map m_id (filter (\<lambda>m. last_id kept < m_id m) migs))"
    by blast
  define ap where "ap = filter (\<lambda>m. last_id kept < m_id m) migs"
  define L1 where "L1 = map (backfill migs) kept @ sort_key r_id (map row_of ap)"
  note after = select_all_after_run [OF dl r(2) r(4) r(5)]
  have L1: "select_all d1 = L1" unfolding L1_def ap_def by (rule after(2))
  have d1: "distinct (map r_id (ledger d1))" by (rule after(1))
  have sk: "sorted (map r_id kept)"
    using select_all_sorted [of d] r(2) by (simp add: sorted_append)
  have ap_mem: "m \<in> set ap \<longleftrightarrow> m \<in> set migs \<and> last_id kept < m_id m" for m
    by (simp add: ap_def)
  have fnd: "find (\<lambda>x. m_id x = m_id m) migs = Some m" if "m \<in> set ap" for m
    using that find_applied [OF r(5), of m] by (simp add: ap_def)
  have setL1: "set L1 = backfill migs ` set kept \<union> row_of ` set ap"
    by (simp add: L1_def)
  have rows: "set (ledger d1) = backfill migs ` set kept \<union> row_of ` set ap"
    using set_select_all [of d1] L1 setL1 by simp
  show fixed: "\<forall>r \<in> set (ledger d1). backfill migs r = r"
  proof
    fix x assume "x \<in> set (ledger d1)"
    with rows consider r0 where "x = backfill migs r0" | m where "m \<in> set ap" "x = row_of m"
      by blast
    then show "backfill migs x = x"
    proof cases
      case 1
      then show ?thesis by (simp add: backfill_idem)
    next
      case 2
      with fnd show ?thesis by (simp add: backfill_row_of)
    qed
  qed
  then have led: "map (backfill migs) (ledger d1) = ledger d1"
    by (simp add: map_idI)
  define d2 where
    "d2 = d1\<lparr>issued := issued d1 @ concat (map (backfill_queries migs) (select_all d1))\<rparr>"
  from audit_phase_result [OF d1, of ex migs] obtain fm2 d1' where a:
    "audit_phase ex migs d1 = (fm2, Ok d1')" "schema d1' = schema d1" "saved d1' = saved d1"
    "issued d1' = issued d1 @ concat (map (backfill_queries migs) (select_all d1))"
    "ledger d1' = map (backfill migs) (ledger d1)"
    by blast
  from a(2-5) led have "d1' = d2" by (simp add: d2_def)
  with a(1) have audit: "audit_phase ex migs d1 = (fm2, Ok d2)" by simp
  have nohash: "\<not> hash_rollback opts fm2 i" for i
  proof (cases "checkHash opts")
    case False
    then show ?thesis by (simp add: hash_rollback_def)
  next
    case True
    have "\<not> mismatch migs x" if x: "x \<in> set L1" for x
    proof
      assume mm: "mismatch migs x"
      from x setL1 consider r0 where "r0 \<in> set kept" "x = backfill migs r0"
        | m where "m \<in> set ap" "x = row_of m"
        by auto
      then show False
      proof cases
        case 2
        with fnd mm show False by (simp add: mismatch_row_of)
      next
        case 1
        with mm have m0: "mismatch migs r0" by (simp add: mismatch_backfill)
        have pre: "\<forall>r \<in> set (select_all d). mismatch migs r \<longrightarrow> r_id r \<noteq> - 1"
          using nn mismatch_id by fastforce
        from 1(1) r(2) have "r0 \<in> set (select_all d)" by simp
        with audit_fm_mismatch [OF pre, of "- 1" ex d] m0
        have fm1: "fm \<noteq> - 1" "fm \<le> r_id r0"
          unfolding r(1) audit_phase_def by simp_all
        from 1(1) have ne: "kept \<noteq> []" by auto
        with r(3) have "\<not> hash_rollback opts fm (r_id (last kept))"
          by (simp add: should_rollback_def)
        with True fm1(1) have lt: "r_id (last kept) < fm"
          by (simp add: hash_rollback_def)
        from last_id_ge [OF sk 1(1)] ne have "r_id r0 \<le> r_id (last kept)"
          by (simp add: last_id_last)
        with lt fm1(2) show False by simp
      qed
    qed
    then have "fst (audit_loop ex migs L1 (- 1) d1) = - 1"
      by (intro audit_fm_no_mismatch) simp
    with audit L1 have "fm2 = - 1" by (simp add: audit_phase_def)
    then show ?thesis by (simp add: hash_rollback_def)
  qed
  have top: "L1 = [] \<or> \<not> should_rollback opts migs fm2 (r_id (last L1))"
  proof (cases "L1 = []")
    case True
    then show ?thesis by (rule disjI1)
  next
    case False
    have "\<not> file_missing migs (r_id (last L1))"
    proof (cases "ap = []")
      case True
      with False have ne: "kept \<noteq> []" by (simp add: L1_def)
      with r(3) have "\<not> file_missing migs (r_id (last kept))"
        by (simp add: should_rollback_def)
      with True ne show ?thesis by (simp add: L1_def last_map)
    next
      case apne: False
      then have "sort_key r_id (map row_of ap) \<noteq> []"
        by (metis length_sort length_map length_0_conv)
      then have "last L1 \<in> set (sort_key r_id (map row_of ap))"
        unfolding L1_def by (metis last_appendR last_in_set)
      then obtain m where "m \<in> set ap" "last L1 = row_of m" by auto
      then show ?thesis by (auto simp: file_missing_iff ap_mem)
    qed
    with nohash nf show ?thesis
      by (simp add: should_rollback_def force_last_def)
  qed
  have sL: "sorted (map r_id L1)" using select_all_sorted [of d1] L1 by simp
  have dL: "distinct (map r_id L1)" using d1 select_all_distinct [of d1] L1 by simp
  have rb: "rollback_phase ex opts migs fm2 L1 d2 = (L1, Ok d2)"
  proof -
    have "rollback_phase ex opts migs fm2 L1 d2 = rollback_loop ex opts migs fm2 (rev L1) L1 d2"
      using sort_key_desc_rev [OF sL dL] by (simp add: rollback_phase_def)
    also have "\<dots> = (L1, Ok d2)"
      by (rule rollback_loop_stop_rev [OF top])
    finally show ?thesis .
  qed
  have below: "\<forall>m \<in> set migs. m_id m \<le> last_id L1"
  proof
    fix m assume m: "m \<in> set migs"
    show "m_id m \<le> last_id L1"
    proof (cases "last_id kept < m_id m")
      case True
      with m have "row_of m \<in> set L1" by (simp add: setL1 ap_mem)
      from last_id_ge [OF sL this] show ?thesis by simp
    next
      case False
      show ?thesis
      proof (cases "kept = []")
        case ne: False
        then have "backfill migs (last kept) \<in> set L1" by (simp add: setL1)
        from last_id_ge [OF sL this] have "r_id (last kept) \<le> last_id L1" by simp
        with False ne show ?thesis by (simp add: last_id_last)
      next
        case True
        with False have le0: "m_id m \<le> 0" by (simp add: last_id_def)
        show ?thesis
        proof (cases "L1 = []")
          case True
          with le0 show ?thesis by (simp add: last_id_def)
        next
          case nel: False
          then have "last L1 \<in> set L1" by (rule last_in_set)
          with True setL1 obtain m' where "m' \<in> set ap" "last L1 = row_of m'" by auto
          with True have "0 < r_id (last L1)" by (simp add: ap_mem last_id_def)
          with nel le0 show ?thesis by (simp add: last_id_last)
        qed
      qed
    qed
  qed
  have ap: "apply_loop ex opts (last_id L1) migs d2 = Ok d2"
    by (rule apply_loop_nothing [OF below])
  have "reconcile ex opts migs d1 = Ok d2"
    using ap by (simp add: reconcile_def audit rb L1)
  then show "reconcile ex opts migs d1 =
           Ok (d1\<lparr>issued := issued d1 @ concat (map (backfill_queries migs) (select_all d1))\<rparr>)"
    by (simp add: d2_def)
qed

section \<open>The file names that are loaded\<close>














section \<open>Splitting a migration file\<close>

lemma no_marker_before_iff:
  "no_marker_before bol s k \<longleftrightarrow> (\<forall>p<k. \<not> marker_at bol s p)"
  by (auto simp: no_marker_before_def list_all_iff)

lemma js_split_skip:
  "no_marker_before bol (pre @ s) (length pre) \<Longrightarrow>
     js_split bol acc (pre @ s) =
       js_split (if pre = [] then bol else is_line_terminator (last pre)) (acc @ pre) s"
proof (induction pre arbitrary: bol acc)
  case Nil
  then show ?case by simp
next
  case (Cons c pre)
  from Cons.prems have all: "\<forall>p<Suc (length pre). \<not> marker_at bol (c # pre @ s) p"
    by (simp add: no_marker_before_iff)
  then have "\<not> marker_at bol (c # pre @ s) 0" by blast
  then have first: "(if bol then match_marker (c # pre @ s) else None) = None"
    by (simp add: marker_at_def)
  have "\<not> marker_at (is_line_terminator c) (pre @ s) p" if "p < length pre" for p
  proof -
    from that all have "\<not> marker_at bol (c # pre @ s) (Suc p)" by simp
    then show ?thesis
      by (cases p) (simp_all add: marker_at_def)
  qed
  then have "no_marker_before (is_line_terminator c) (pre @ s) (length pre)"
    by (simp add: no_marker_before_iff)
  from Cons.IH [OF this, of "acc @ [c]"] first show ?case
    by simp
qed

lemma js_split_no_marker:
  assumes "no_marker_before bol s (length s)"
  shows "js_split bol acc s = [acc @ s]"
  using js_split_skip [of bol s "[]" acc] assms by simp

lemma js_split_first_marker:
  assumes "no_marker_before bol (up @ s) (length up)"
    and "marker_at bol (up @ s) (length up)"
    and "match_marker s = Some rest"
  shows "js_split bol acc (up @ s) = (acc @ up) # js_split False [] rest"
proof -
  from assms(3) obtain c cs where s: "s = c # cs"
    by (cases s) (auto simp: match_marker_def)
  from assms(2) have bol': "(if up = [] then bol else is_line_terminator (last up))"
    by (cases "up = []") (simp_all add: marker_at_def nth_append last_conv_nth)
  have "js_split bol acc (up @ s) =
          js_split (if up = [] then bol else is_line_terminator (last up)) (acc @ up) s"
    by (rule js_split_skip [OF assms(1)])
  also have "\<dots> = (acc @ up) # js_split False [] rest"
    using bol' assms(3) unfolding s by (simp split: if_splits)
  finally show ?thesis .
qed

lemma js_split_hd_prefix: "prefix acc (hd (js_split bol acc s)) \<and> prefix (hd (js_split bol acc s)) (acc @ s)"
proof (induction bol acc s rule: js_split.induct)
  case (1 bol acc)
  then show ?case by simp
next
  case (2 bol acc c cs)
  show ?case
  proof (cases "if bol then match_marker (c # cs) else None")
    case None
    with 2 have IH: "prefix (acc @ [c]) (hd (js_split (is_line_terminator c) (acc @ [c]) cs))"
      "prefix (hd (js_split (is_line_terminator c) (acc @ [c]) cs)) ((acc @ [c]) @ cs)"
      by simp_all
    from IH(1) have "prefix acc (hd (js_split (is_line_terminator c) (acc @ [c]) cs))"
      by (rule append_prefixD)
    with IH(2) None show ?thesis by simp
  next
    case (Some rest)
    then show ?thesis by (simp del: js_split.simps add: js_split.simps(2) [of bol acc c cs])
  qed
qed


lemma down_ci_space: "is_space w \<Longrightarrow> down_ci (w # s) = None"
  by (auto simp: down_ci_def is_space_def split: list.splits)

lemma down_ci_append: "down_ci dn = Some [] \<Longrightarrow> down_ci (dn @ rest) = Some rest"
  by (auto simp: down_ci_def split: list.splits if_splits)

lemma down_ci_split: "down_ci s = Some rest \<Longrightarrow> \<exists>dn. s = dn @ rest \<and> down_ci dn = Some []"
proof -
  assume a: "down_ci s = Some rest"
  then obtain a1 a2 a3 a4 where s: "s = a1 # a2 # a3 # a4 # rest"
    by (auto simp: down_ci_def split: list.splits if_splits)
  with a have "down_ci [a1, a2, a3, a4] = Some []"
    by (auto simp: down_ci_def split: if_splits)
  with s show ?thesis by (intro exI [of _ "[a1, a2, a3, a4]"]) simp
qed

lemma down_ci_nonempty: "down_ci dn = Some [] \<Longrightarrow> dn \<noteq> []"
  by (auto simp: down_ci_def)

lemma lazy_space_iff:
  "lazy_space s = Some rest \<longleftrightarrow>
     (\<exists>ws dn. s = ws @ dn @ rest \<and> list_all is_space ws \<and> down_ci dn = Some [])"
proof (induction s)
  case Nil
  then show ?case by (auto dest: down_ci_nonempty)
next
  case (Cons c cs)
  show ?case
  proof
    assume l: "lazy_space (c # cs) = Some rest"
    show "\<exists>ws dn. c # cs = ws @ dn @ rest \<and> list_all is_space ws \<and> down_ci dn = Some []"
    proof (cases "down_ci (c # cs)")
      case (Some r)
      with l have "r = rest" by simp
      with Some down_ci_split [of "c # cs" rest] obtain dn where
        "c # cs = dn @ rest" "down_ci dn = Some []" by blast
      then show ?thesis by (intro exI [of _ "[]"] exI [of _ dn]) simp
    next
      case None
      with l have sp: "is_space c" and "lazy_space cs = Some rest"
        by (auto split: if_splits)
      with Cons.IH obtain ws dn where "cs = ws @ dn @ rest" "list_all is_space ws"
        "down_ci dn = Some []" by blast
      with sp show ?thesis by (intro exI [of _ "c # ws"] exI [of _ dn]) simp
    qed
  next
    assume "\<exists>ws dn. c # cs = ws @ dn @ rest \<and> list_all is_space ws \<and> down_ci dn = Some []"
    then obtain ws dn where d: "c # cs = ws @ dn @ rest" "list_all is_space ws"
      "down_ci dn = Some []" by blast
    show "lazy_space (c # cs) = Some rest"
    proof (cases ws)
      case Nil
      with d have "down_ci (c # cs) = Some rest" by (simp add: down_ci_append)
      then show ?thesis by simp
    next
      case (Cons w ws')
      with d have c: "c = w" "cs = ws' @ dn @ rest" "is_space w" "list_all is_space ws'"
        by simp_all
      with d(3) Cons.IH have "lazy_space cs = Some rest" by blast
      with c down_ci_space [of c cs] show ?thesis by simp
    qed
  qed
qed

lemma match_marker_iff:
  "match_marker s = Some rest \<longleftrightarrow>
     (\<exists>ws dn. s = ''--'' @ ws @ dn @ rest \<and> ws \<noteq> [] \<and> list_all is_space ws \<and>
        down_ci dn = Some [])"
proof
  assume "match_marker s = Some rest"
  then obtain c cs where s: "s = CHR ''-'' # CHR ''-'' # c # cs" "is_space c"
    "lazy_space cs = Some rest"
    by (auto simp: match_marker_def split: list.splits if_splits)
  from s(3) obtain ws dn where "cs = ws @ dn @ rest" "list_all is_space ws" "down_ci dn = Some []"
    unfolding lazy_space_iff by blast
  with s(1,2) show "\<exists>ws dn. s = ''--'' @ ws @ dn @ rest \<and> ws \<noteq> [] \<and> list_all is_space ws \<and>
        down_ci dn = Some []"
    by (intro exI [of _ "c # ws"] exI [of _ dn]) simp
next
  assume "\<exists>ws dn. s = ''--'' @ ws @ dn @ rest \<and> ws \<noteq> [] \<and> list_all is_space ws \<and>
        down_ci dn = Some []"
  then obtain ws dn where d: "s = ''--'' @ ws @ dn @ rest" "ws \<noteq> []" "list_all is_space ws"
    "down_ci dn = Some []" by blast
  from d(2) obtain c ws' where ws: "ws = c # ws'" by (cases ws) auto
  with d(3) have c: "is_space c" "list_all is_space ws'" by simp_all
  with d(4) have "lazy_space (ws' @ dn @ rest) = Some rest"
    unfolding lazy_space_iff by blast
  with d(1) ws c(1) show "match_marker s = Some rest"
    by (simp add: match_marker_def)
qed


lemma js_split_nonempty: "js_split bol acc s \<noteq> []"
  by (induction bol acc s rule: js_split.induct) (auto split: option.splits)

lemma parse_file_pieces:
  assumes "js_split True [] data = up # pieces" and "pieces \<noteq> []"
  shows "parse_file H e data =
     (if hd pieces = [] then Inl (MalformedMigrationFile (e_filename e))
      else Inr \<lparr>m_id = e_id e, m_name = e_name e, m_filename = e_filename e,
                m_up = trim (strip_comments True up),
                m_down = trim (strip_comments True (hd pieces)),
                m_hash = content_hash H data\<rparr>)"
  using assms by (cases pieces) (simp_all add: parse_file_def)

section \<open>The text that is hashed\<close>

text \<open>
  \<^verbatim>\<open>data.replace(/\r\n/g, '\n')\<close> drops the carriage return of every pair carriage
  return, line feed, and nothing else. A text without carriage returns is left as it is, and
  the text of the other platform gives it back. Two contents of the same length that differ
  in one place are still different afterwards.
\<close>

lemma normalize_Cons:
  "normalize_newlines (c # s) =
     (if c = CHR 0x0D \<and> (\<exists>t. s = CHR 0x0A # t) then normalize_newlines s
      else c # normalize_newlines s)"
proof (cases s)
  case Nil
  then show ?thesis by simp
next
  case (Cons d t)
  show ?thesis
  proof (cases "c = CHR 0x0D \<and> d = CHR 0x0A")
    case True
    have "normalize_newlines (CHR 0x0A # t) = CHR 0x0A # normalize_newlines t"
      by (cases t) simp_all
    with True Cons show ?thesis by simp
  next
    case False
    with Cons show ?thesis by auto
  qed
qed

lemma normalize_no_cr: "CHR 0x0D \<notin> set s \<Longrightarrow> normalize_newlines s = s"
  by (induction s) (auto simp: normalize_Cons)

lemma normalize_to_crlf: "CHR 0x0D \<notin> set s \<Longrightarrow> normalize_newlines (to_crlf s) = s"
proof (induction s)
  case Nil
  then show ?case by (simp add: to_crlf_def)
next
  case (Cons c s)
  then have IH: "normalize_newlines (to_crlf s) = s" by simp
  show ?case
  proof (cases "c = CHR 0x0A")
    case True
    then have "to_crlf (c # s) = CHR 0x0D # CHR 0x0A # to_crlf s" by (simp add: to_crlf_def)
    with True IH show ?thesis by simp
  next
    case False
    then have "to_crlf (c # s) = c # to_crlf s" by (simp add: to_crlf_def)
    moreover from Cons.prems have "c \<noteq> CHR 0x0D" by auto
    ultimately show ?thesis using IH by (simp add: normalize_Cons)
  qed
qed

lemma normalize_substitution:
  "c \<noteq> c' \<Longrightarrow> normalize_newlines (u @ c # v) \<noteq> normalize_newlines (u @ c' # v)"
proof (induction u)
  case Nil
  show ?case
  proof (cases "\<exists>t. v = CHR 0x0A # t")
    case False
    with Nil show ?thesis by (simp del: normalize_newlines.simps add: normalize_Cons)
  next
    case True
    then obtain t where v: "v = CHR 0x0A # t" by blast
    have nv: "normalize_newlines v = CHR 0x0A # normalize_newlines t"
      unfolding v by (simp del: normalize_newlines.simps add: normalize_Cons)
    show ?thesis
    proof (cases "c = CHR 0x0D")
      case True
      with Nil have "c' \<noteq> CHR 0x0D" by simp
      with True v nv show ?thesis by (simp del: normalize_newlines.simps add: normalize_Cons)
    next
      case False
      show ?thesis
      proof (cases "c' = CHR 0x0D")
        case True
        with False v nv show ?thesis by (simp del: normalize_newlines.simps add: normalize_Cons)
      next
        case c': False
        with False Nil show ?thesis by (simp del: normalize_newlines.simps add: normalize_Cons)
      qed
    qed
  qed
next
  case (Cons a u)
  then have IH: "normalize_newlines (u @ c # v) \<noteq> normalize_newlines (u @ c' # v)" by simp
  show ?case
  proof (cases u)
    case (Cons b u')
    with IH show ?thesis by (auto simp del: normalize_newlines.simps simp add: normalize_Cons [of a])
  next
    case Nil
    show ?thesis
    proof (cases "a = CHR 0x0D")
      case False
      with IH show ?thesis by (simp del: normalize_newlines.simps add: normalize_Cons [of a])
    next
      case True
      have crlf: "normalize_newlines (CHR 0x0D # CHR 0x0A # v) = CHR 0x0A # normalize_newlines v"
        by simp
      have cr: "normalize_newlines (CHR 0x0D # x # v) = CHR 0x0D # normalize_newlines (x # v)"
        if "x \<noteq> CHR 0x0A" for x
        using that by simp
      show ?thesis
      proof (cases "c = CHR 0x0A")
        case c: True
        with Cons.prems have "c' \<noteq> CHR 0x0A" by simp
        from cr [OF this] crlf True c Nil show ?thesis by simp
      next
        case c: False
        show ?thesis
        proof (cases "c' = CHR 0x0A")
          case c': True
          from cr [OF c] crlf True c' Nil show ?thesis by simp
        next
          case c': False
          from cr [OF c] cr [OF c'] IH True Nil show ?thesis by simp
        qed
      qed
    qed
  qed
qed


lemma parse_file_hash:
  "parse_file H e data = Inr m \<Longrightarrow> m_hash m = content_hash H data"
  by (auto simp: parse_file_def split: list.splits if_splits)

section \<open>The claims\<close>

subsection \<open>C7: the round trip of an apply\<close>

text \<open>
  C7. With \<^verbatim>\<open>validateDown\<close> enabled, an apply runs the up script, the down script and
  the up script again inside one transaction before it inserts the ledger row. If the
  down script fails the transaction is rolled back: the ledger and the schema are as
  they were at \<^verbatim>\<open>begin\<close>, nothing is committed, and the apply loop stops with that
  error whatever definitions remain.
\<close>

theorem apply_one_round_trip:
  assumes "validateDown opts"
  shows "apply_one ex opts m d =
     (case ex (m_up m) (schema d) of
        None \<Rightarrow> Fail (ScriptFailed (m_up m))
                  (d\<lparr>saved := None, issued := issued d @ [Begin, Script (m_up m), Rollback]\<rparr>)
      | Some s1 \<Rightarrow>
          (case ex (m_down m) s1 of
             None \<Rightarrow> Fail (ScriptFailed (m_down m))
                (d\<lparr>saved := None,
                   issued := issued d @ [Begin, Script (m_up m), Script (m_down m), Rollback]\<rparr>)
           | Some s2 \<Rightarrow>
               (case ex (m_up m) s2 of
                  None \<Rightarrow> Fail (ScriptFailed (m_up m))
                    (d\<lparr>saved := None,
                       issued := issued d @ [Begin, Script (m_up m), Script (m_down m),
                                             Script (m_up m), Rollback]\<rparr>)
                | Some s3 \<Rightarrow>
                    if m_id m \<in> set (map r_id (ledger d))
                    then Fail (UniqueViolation (m_id m))
                      (d\<lparr>saved := None,
                         issued := issued d @ [Begin, Script (m_up m), Script (m_down m),
                                               Script (m_up m), Insert (row_of m), Rollback]\<rparr>)
                    else Ok (d\<lparr>ledger := ledger d @ [row_of m], schema := s3, saved := None,
                               issued := issued d @ [Begin, Script (m_up m), Script (m_down m),
                                               Script (m_up m), Insert (row_of m), Commit]\<rparr>))))
     \<and> (apply_loop ex opts lastId pre d0 = Ok d \<and> lastId < m_id m \<and>
          ex (m_up m) (schema d) = Some s1 \<and> ex (m_down m) s1 = None \<longrightarrow>
          apply_loop ex opts lastId (pre @ m # post) d0 =
            Fail (ScriptFailed (m_down m))
              (d\<lparr>saved := None,
                 issued := issued d @ [Begin, Script (m_up m), Script (m_down m), Rollback]\<rparr>))"
  using assms
  by (auto simp: apply_one_eq apply_loop_append apply_queries_def apply_scripts_def
      split: option.splits)

theorem apply_one_round_trip_witness:
  "validateDown \<lparr>force = NoForce, checkHash = False, validateDown = True\<rparr> \<and>
   apply_one sql_engine \<lparr>force = NoForce, checkHash = False, validateDown = True\<rparr>
       (mig 2 ''up2'' ''fail'' ''h2'')
       (empty_db\<lparr>ledger := [row_of (mig 1 ''up1'' ''down1'' ''h1'')]\<rparr>) =
     Fail (ScriptFailed ''fail'')
       (empty_db\<lparr>ledger := [row_of (mig 1 ''up1'' ''down1'' ''h1'')],
                 issued := [Begin, Script ''up2'', Script ''fail'', Rollback]\<rparr>) \<and>
   apply_loop sql_engine \<lparr>force = NoForce, checkHash = False, validateDown = True\<rparr> 1
       ([mig 1 ''up1'' ''down1'' ''h1''] @ mig 2 ''up2'' ''fail'' ''h2'' # [mig 3 ''up3'' ''down3'' ''h3''])
       (empty_db\<lparr>ledger := [row_of (mig 1 ''up1'' ''down1'' ''h1'')]\<rparr>) =
     Fail (ScriptFailed ''fail'')
       (empty_db\<lparr>ledger := [row_of (mig 1 ''up1'' ''down1'' ''h1'')],
                 issued := [Begin, Script ''up2'', Script ''fail'', Rollback]\<rparr>)"
  using apply_one_round_trip [where opts = "\<lparr>force = NoForce, checkHash = False, validateDown = True\<rparr>"
      and ex = sql_engine and m = "mig 2 ''up2'' ''fail'' ''h2''"
      and d = "empty_db\<lparr>ledger := [row_of (mig 1 ''up1'' ''down1'' ''h1'')]\<rparr>"
      and ?d0.0 = "empty_db\<lparr>ledger := [row_of (mig 1 ''up1'' ''down1'' ''h1'')]\<rparr>"
      and lastId = 1 and pre = "[mig 1 ''up1'' ''down1'' ''h1'']"
      and post = "[mig 3 ''up3'' ''down3'' ''h3'']" and ?s1.0 = "[''up2'']"]
  by (simp add: sql_engine_def empty_db_def mig_def row_of_def)

subsection \<open>C9: a rollback runs the recorded down script\<close>

text \<open>
  C9. Every row rolled back in the rollback phase is rolled back with the statements
  \<^verbatim>\<open>begin\<close>, the \<^verbatim>\<open>down\<close> field of that row, the delete of its id and \<^verbatim>\<open>commit\<close>;
  a failed phase ends with the attempt on the \<^verbatim>\<open>down\<close> field of the next row. The
  down scripts of the definitions have no part in it: replacing them leaves the phase
  unchanged.
\<close>

theorem rollback_runs_recorded_down:
  assumes "rollback_phase ex opts migrations firstMismatch dbMigrations d = (view, out)"
  shows "(\<exists>gone rest. sort_key (\<lambda>r. - r_id r) dbMigrations = gone @ rest \<and>
            issued (db_of out) = issued d @ concat (map rollback_queries gone) @
              (case out of Ok _ \<Rightarrow> []
               | Fail _ _ \<Rightarrow> [Begin, Script (r_down (hd rest)), Rollback]) \<and>
            (\<forall>e d'. out = Fail e d' \<longrightarrow> rest \<noteq> [] \<and> e = ScriptFailed (r_down (hd rest)))) \<and>
         rollback_phase ex opts (map (\<lambda>m. m\<lparr>m_down := f m\<rparr>) migrations) firstMismatch
           dbMigrations d = (view, out)"
proof -
  from assms have
    loop: "rollback_loop ex opts migrations firstMismatch (sort_key (\<lambda>r. - r_id r) dbMigrations)
             dbMigrations d = (view, out)"
    by (simp add: rollback_phase_def)
  from rollback_loop_log [OF loop] have
    "\<exists>gone rest. sort_key (\<lambda>r. - r_id r) dbMigrations = gone @ rest \<and>
       issued (db_of out) = issued d @ concat (map rollback_queries gone) @
         (case out of Ok _ \<Rightarrow> [] | Fail _ _ \<Rightarrow> [Begin, Script (r_down (hd rest)), Rollback]) \<and>
       (\<forall>e d'. out = Fail e d' \<longrightarrow> rest \<noteq> [] \<and> e = ScriptFailed (r_down (hd rest)))"
    by blast
  moreover from loop have
    "rollback_phase ex opts (map (\<lambda>m. m\<lparr>m_down := f m\<rparr>) migrations) firstMismatch
       dbMigrations d = (view, out)"
    by (simp add: rollback_phase_def rollback_loop_m_down)
  ultimately show ?thesis by blast
qed

theorem rollback_runs_recorded_down_witness:
  "rollback_phase sql_engine \<lparr>force = NoForce, checkHash = False, validateDown = True\<rparr>
         [mig 1 ''up1'' ''new down'' ''h1''] (- 1) [rw 1 ''old1'' ''h1'', rw 2 ''old2'' ''h2'']
         (empty_db\<lparr>ledger := [rw 1 ''old1'' ''h1'', rw 2 ''old2'' ''h2'']\<rparr>) =
       ([rw 1 ''old1'' ''h1''],
        Ok (empty_db\<lparr>ledger := [rw 1 ''old1'' ''h1''], schema := [''old2''],
                     issued := [Begin, Script ''old2'', Delete 2, Commit]\<rparr>)) \<and>
   (\<exists>gone rest.
       sort_key (\<lambda>r. - r_id r) [rw 1 ''old1'' ''h1'', rw 2 ''old2'' ''h2''] = gone @ rest \<and>
       [Begin, Script ''old2'', Delete 2, Commit] = concat (map rollback_queries gone)) \<and>
   rollback_phase sql_engine \<lparr>force = NoForce, checkHash = False, validateDown = True\<rparr>
         (map (\<lambda>m. m\<lparr>m_down := ''another down''\<rparr>) [mig 1 ''up1'' ''new down'' ''h1'']) (- 1)
         [rw 1 ''old1'' ''h1'', rw 2 ''old2'' ''h2'']
         (empty_db\<lparr>ledger := [rw 1 ''old1'' ''h1'', rw 2 ''old2'' ''h2'']\<rparr>) =
       ([rw 1 ''old1'' ''h1''],
        Ok (empty_db\<lparr>ledger := [rw 1 ''old1'' ''h1''], schema := [''old2''],
                     issued := [Begin, Script ''old2'', Delete 2, Commit]\<rparr>))"
proof -
  have run: "rollback_phase sql_engine \<lparr>force = NoForce, checkHash = False, validateDown = True\<rparr>
         [mig 1 ''up1'' ''new down'' ''h1''] (- 1) [rw 1 ''old1'' ''h1'', rw 2 ''old2'' ''h2'']
         (empty_db\<lparr>ledger := [rw 1 ''old1'' ''h1'', rw 2 ''old2'' ''h2'']\<rparr>) =
       ([rw 1 ''old1'' ''h1''],
        Ok (empty_db\<lparr>ledger := [rw 1 ''old1'' ''h1''], schema := [''old2''],
                     issued := [Begin, Script ''old2'', Delete 2, Commit]\<rparr>))"
    by (simp add: rollback_phase_def should_rollback_def file_missing_def hash_rollback_def
        force_last_def rollback_one_eq rollback_queries_def sql_engine_def empty_db_def
        mig_def rw_def)
  from rollback_runs_recorded_down [OF run, where f = "\<lambda>m. ''another down''"] run
  show ?thesis by (simp add: empty_db_def)
qed

subsection \<open>C2: the audit and \<^verbatim>\<open>checkHash\<close>\<close>

text \<open>
  C2, as stated, fails: the audit loop is not guarded by \<^verbatim>\<open>checkHash\<close>. In the run
  below \<^verbatim>\<open>checkHash\<close> is disabled, the ledger holds one row with the sentinel hash,
  and the run rewrites that hash.
\<close>

theorem backfill_without_checkHash:
  "\<not> checkHash no_check \<and>
   map r_hash (ledger legacy_db) = [''nil''] \<and>
   reconcile sql_engine no_check [mig 1 ''up1'' ''down1'' ''h1''] legacy_db =
     Ok (legacy_db\<lparr>ledger := [rw 1 ''down1'' ''h1''], issued := [UpdateHash ''h1'' 1]\<rparr>)"
  by (simp add: legacy_db_def no_check_def run_simps)

text \<open>
  C2, amended. On every run, whatever \<^verbatim>\<open>checkHash\<close> is, the audit succeeds and
  backfills in place every sentinel row whose id has a definition, with that
  definition's hash; it changes no other row, no other field and not the schema, and
  the run goes on from there. With \<^verbatim>\<open>checkHash\<close> disabled the audit's mismatch
  rolls nothing back: condition (b) is false for every id.
\<close>

theorem audit_backfills_sentinels:
  assumes "distinct (map r_id (ledger d))"
  shows "\<exists>firstMismatch d'.
     audit_phase ex migrations d = (firstMismatch, Ok d') \<and>
     ledger d' = map (backfill migrations) (ledger d) \<and> schema d' = schema d \<and>
     issued d' = issued d @ concat (map (backfill_queries migrations) (select_all d)) \<and>
     reconcile ex opts migrations d =
       (case rollback_phase ex opts migrations firstMismatch (select_all d) d' of
          (view, Fail e d2) \<Rightarrow> Fail e d2
        | (view, Ok d2) \<Rightarrow> apply_loop ex opts (last_id view) migrations d2) \<and>
     (\<not> checkHash opts \<longrightarrow> (\<forall>i. \<not> hash_rollback opts firstMismatch i))"
proof -
  from audit_phase_result [OF assms, of ex migrations] obtain fm d' where a:
    "audit_phase ex migrations d = (fm, Ok d')" "schema d' = schema d"
    "issued d' = issued d @ concat (map (backfill_queries migrations) (select_all d))"
    "ledger d' = map (backfill migrations) (ledger d)"
    by blast
  have "reconcile ex opts migrations d =
       (case rollback_phase ex opts migrations fm (select_all d) d' of
          (view, Fail e d2) \<Rightarrow> Fail e d2
        | (view, Ok d2) \<Rightarrow> apply_loop ex opts (last_id view) migrations d2)"
    using a(1) by (simp add: reconcile_def)
  moreover have "\<not> checkHash opts \<longrightarrow> (\<forall>i. \<not> hash_rollback opts fm i)"
    by (simp add: hash_rollback_def)
  ultimately show ?thesis using a by blast
qed

theorem audit_backfills_sentinels_witness:
  "distinct (map r_id (ledger legacy_db)) \<and>
   (\<exists>firstMismatch d'.
      audit_phase sql_engine [mig 1 ''up1'' ''down1'' ''h1''] legacy_db = (firstMismatch, Ok d') \<and>
      ledger d' = [rw 1 ''down1'' ''h1''] \<and>
      issued d' = [UpdateHash ''h1'' 1] \<and>
      \<not> hash_rollback no_check firstMismatch 1)"
  using audit_backfills_sentinels [of legacy_db sql_engine "[mig 1 ''up1'' ''down1'' ''h1'']" no_check]
  by (auto simp: legacy_db_def no_check_def backfill_def backfill_queries_def run_simps)

subsection \<open>C1: ascending ids, and a suffix rolled back\<close>

text \<open>
  C1. After a successful run the listing of the ledger has strictly ascending ids. The
  rows deleted during the run are a suffix of the listing before the run, deleted from the
  highest id down; every row of that suffix met the rollback condition, the last row
  before it did not, and the rows before the suffix are still the first rows of the
  listing after the run, unchanged but for a backfilled hash.
\<close>

theorem ledger_ascending_suffix_rolled_back:
  assumes "distinct (map r_id (ledger d))" and "reconcile ex opts migrations d = Ok d'"
  shows "sorted_wrt (<) (map r_id (select_all d')) \<and>
     (\<exists>kept gone qs firstMismatch.
        select_all d = kept @ gone \<and>
        issued d' = issued d @ qs \<and>
        deleted_ids qs = rev (map r_id gone) \<and>
        (\<forall>r \<in> set gone. should_rollback opts migrations firstMismatch (r_id r)) \<and>
        (kept = [] \<or> \<not> should_rollback opts migrations firstMismatch (r_id (last kept))) \<and>
        prefix (map (backfill migrations) kept) (select_all d'))"
proof -
  from reconcile_Ok [OF assms] obtain fm kept gone where r:
    "select_all d = kept @ rev gone"
    "\<forall>r \<in> set gone. should_rollback opts migrations fm (r_id r)"
    "kept = [] \<or> \<not> should_rollback opts migrations fm (r_id (last kept))"
    "ledger d' = filter (\<lambda>x. r_id x \<notin> set (map r_id gone)) (map (backfill migrations) (ledger d)) @
                 map row_of (filter (\<lambda>m. last_id kept < m_id m) migrations)"
    "issued d' = issued d @ concat (map (backfill_queries migrations) (select_all d)) @
                 concat (map rollback_queries gone) @
                 concat (map (apply_queries opts) (filter (\<lambda>m. last_id kept < m_id m) migrations))"
    "distinct (map m_id (filter (\<lambda>m. last_id kept < m_id m) migrations))"
    by blast
  note after = select_all_after_run [OF assms(1) r(1) r(4) r(6)]
  have "sorted (map r_id (select_all d'))" by (rule select_all_sorted)
  moreover have "distinct (map r_id (select_all d'))"
    using after(1) by (simp add: select_all_distinct)
  ultimately have asc: "sorted_wrt (<) (map r_id (select_all d'))"
    by (simp add: strict_sorted_iff)
  let ?qs = "concat (map (backfill_queries migrations) (select_all d)) @
                 concat (map rollback_queries gone) @
                 concat (map (apply_queries opts) (filter (\<lambda>m. last_id kept < m_id m) migrations))"
  have del: "deleted_ids ?qs = rev (map r_id (rev gone))"
    by (simp add: rev_map)
  have pre: "prefix (map (backfill migrations) kept) (select_all d')"
    unfolding after(2) by simp
  have gone': "\<forall>r \<in> set (rev gone). should_rollback opts migrations fm (r_id r)"
    using r(2) by simp
  from r(1) r(5) del gone' r(3) pre
  have "\<exists>kept gone qs firstMismatch.
        select_all d = kept @ gone \<and>
        issued d' = issued d @ qs \<and>
        deleted_ids qs = rev (map r_id gone) \<and>
        (\<forall>r \<in> set gone. should_rollback opts migrations firstMismatch (r_id r)) \<and>
        (kept = [] \<or> \<not> should_rollback opts migrations firstMismatch (r_id (last kept))) \<and>
        prefix (map (backfill migrations) kept) (select_all d')"
    by blast
  with asc show ?thesis by blast
qed

theorem ledger_ascending_suffix_rolled_back_witness:
  "distinct (map r_id (ledger three_rows_db)) \<and>
   reconcile sql_engine no_check two_files three_rows_db = Ok three_rows_after \<and>
   map r_id (select_all three_rows_db) = [1, 3, 4] \<and>
   map r_id (select_all three_rows_after) = [1, 2] \<and>
   sorted_wrt (<) (map r_id (select_all three_rows_after)) \<and>
   (\<exists>kept gone qs firstMismatch.
      select_all three_rows_db = kept @ gone \<and>
      issued three_rows_after = issued three_rows_db @ qs \<and>
      deleted_ids qs = rev (map r_id gone) \<and>
      (\<forall>r \<in> set gone. should_rollback no_check two_files firstMismatch (r_id r)) \<and>
      (kept = [] \<or> \<not> should_rollback no_check two_files firstMismatch (r_id (last kept))) \<and>
      prefix (map (backfill two_files) kept) (select_all three_rows_after))"
proof -
  have dis: "distinct (map r_id (ledger three_rows_db))"
    by (simp add: three_rows_db_def empty_db_def rw_def)
  have run: "reconcile sql_engine no_check two_files three_rows_db = Ok three_rows_after"
    by (simp add: three_rows_db_def three_rows_after_def two_files_def no_check_def run_simps)
  have ids: "map r_id (select_all three_rows_db) = [1, 3, 4]"
    "map r_id (select_all three_rows_after) = [1, 2]"
    by (simp_all add: three_rows_db_def three_rows_after_def run_simps)
  from ledger_ascending_suffix_rolled_back [OF dis run] dis run ids
  show ?thesis by blast
qed

subsection \<open>C10: the ids applied, and the key of the ledger\<close>

text \<open>
  C10, as stated, fails: two files may carry the same id (\<^verbatim>\<open>1.a.sql\<close> and
  \<^verbatim>\<open>01.b.sql\<close> both have id 1), nothing in the source rejects them, both ids are
  above the last id of an empty ledger, and the second insert meets the row the first
  one wrote. The run below is the whole of \<^verbatim>\<open>migrate\<close> on such a directory.
\<close>

theorem same_id_files_violate_key:
  "ledger empty_db = [] \<and>
   migrate plain_digest sql_engine no_check same_id_dir empty_db =
     Fail (UniqueViolation 1) same_id_after"
  by code_simp

text \<open>
  C10, amended. In every run, an id that is inserted is strictly greater than the id of
  every row of the ledger that the run did not delete; and when the ids of the
  definitions are pairwise distinct, no run fails with a violation of the ledger's key.
\<close>

theorem apply_ids_above_remaining:
  assumes "distinct (map r_id (ledger d))"
  shows "\<exists>qs. issued (db_of (reconcile ex opts migrations d)) = issued d @ qs \<and>
      (\<forall>r x. Insert r \<in> set qs \<and> x \<in> set (ledger d) \<and> Delete (r_id x) \<notin> set qs
          \<longrightarrow> r_id x < r_id r) \<and>
      (distinct (map m_id migrations) \<longrightarrow>
         (\<forall>i d'. reconcile ex opts migrations d \<noteq> Fail (UniqueViolation i) d'))"
proof -
  from reconcile_run [OF assms, of ex migrations opts] obtain fm d1 view gone out where
    au: "audit_phase ex migrations d = (fm, Ok d1)" and r:
    "ledger d1 = map (backfill migrations) (ledger d)"
    "issued d1 = issued d @ concat (map (backfill_queries migrations) (select_all d))"
    "select_all d = view @ rev gone"
    "ledger (db_of out) = filter (\<lambda>x. r_id x \<notin> set (map r_id gone)) (ledger d1)"
    "issued (db_of out) = issued d1 @ concat (map rollback_queries gone) @
       (case out of Ok _ \<Rightarrow> [] | Fail _ _ \<Rightarrow> [Begin, Script (r_down (last view)), Rollback])"
    "\<forall>e d'. out = Fail e d' \<longrightarrow> view \<noteq> [] \<and> e = ScriptFailed (r_down (last view))"
    "reconcile ex opts migrations d =
       (case out of Fail e d2 \<Rightarrow> Fail e d2
        | Ok d2 \<Rightarrow> apply_loop ex opts (last_id view) migrations d2)"
    by blast
  let ?qa = "concat (map (backfill_queries migrations) (select_all d))"
  let ?qr = "concat (map rollback_queries gone)"
  have no_ins_a: "Insert r \<notin> set ?qa" for r
    using backfill_queries_set by blast
  have no_ins_r: "Insert r \<notin> set ?qr" for r
    by (auto simp: rollback_queries_def)
  show ?thesis
  proof (cases out)
    case (Fail e d2)
    with r(6) have e: "e = ScriptFailed (r_down (last view))" by simp
    from Fail r(7) have rec: "reconcile ex opts migrations d = Fail e d2" by simp
    let ?qs = "?qa @ ?qr @ [Begin, Script (r_down (last view)), Rollback]"
    have "issued (db_of (reconcile ex opts migrations d)) = issued d @ ?qs"
      using rec r(5) r(2) Fail by simp
    moreover have "\<forall>r. Insert r \<notin> set ?qs"
      using no_ins_a no_ins_r by simp
    moreover have "\<forall>i d'. reconcile ex opts migrations d \<noteq> Fail (UniqueViolation i) d'"
      using rec e by simp
    ultimately show ?thesis by blast
  next
    case (Ok d2)
    with r(7) have rec: "reconcile ex opts migrations d = apply_loop ex opts (last_id view) migrations d2"
      by simp
    from apply_loop_log [of ex opts "last_id view" migrations d2] obtain qp where qp:
      "issued (db_of (apply_loop ex opts (last_id view) migrations d2)) = issued d2 @ qp"
      "\<forall>i. Delete i \<notin> set qp" "\<forall>r. Insert r \<in> set qp \<longrightarrow> last_id view < r_id r"
      by blast
    let ?qs = "?qa @ ?qr @ qp"
    from Ok r(4) r(5) have d2: "ledger d2 = filter (\<lambda>x. r_id x \<notin> set (map r_id gone)) (ledger d1)"
      "issued d2 = issued d1 @ ?qr"
      by simp_all
    have iss: "issued (db_of (reconcile ex opts migrations d)) = issued d @ ?qs"
      using rec qp(1) d2(2) r(2) by simp
    have sv: "sorted (map r_id view)"
      using select_all_sorted [of d] r(3) by (simp add: sorted_append)
    have above: "r_id x < r_id rw"
      if "Insert rw \<in> set ?qs" "x \<in> set (ledger d)" "Delete (r_id x) \<notin> set ?qs" for rw x
    proof -
      from that(1) no_ins_a no_ins_r have "Insert rw \<in> set qp" by simp
      with qp(3) have lt: "last_id view < r_id rw" by simp
      from that(3) have "Delete (r_id x) \<notin> set ?qr" by simp
      then have "x \<notin> set gone" using Delete_in_rollback_queries by blast
      moreover from that(2) r(3) have "x \<in> set view \<union> set gone"
        using set_select_all [of d] by auto
      ultimately have "x \<in> set view" by simp
      from last_id_ge [OF sv this] lt show ?thesis by simp
    qed
    have ids2: "r_id ` set (ledger d2) = r_id ` set view"
      unfolding d2(1) r(1) by (rule ids_after_rollback [OF assms r(3)])
    have fresh: "\<forall>m \<in> set migrations. last_id view < m_id m \<longrightarrow> m_id m \<notin> set (map r_id (ledger d2))"
    proof (intro ballI impI notI)
      fix m assume "last_id view < m_id m" "m_id m \<in> set (map r_id (ledger d2))"
      with ids2 obtain x where "x \<in> set view" "r_id x = m_id m" by auto
      with last_id_ge [OF sv this(1)] \<open>last_id view < m_id m\<close> show False by simp
    qed
    have nov: "distinct (map m_id migrations) \<longrightarrow>
         (\<forall>i d'. reconcile ex opts migrations d \<noteq> Fail (UniqueViolation i) d')"
      unfolding rec using apply_loop_no_violation [OF _ fresh] by blast
    from iss above nov show ?thesis by blast
  qed
qed

theorem apply_ids_above_remaining_witness:
  "distinct (map r_id (ledger three_rows_db)) \<and>
   distinct (map m_id two_files) \<and>
   reconcile sql_engine no_check two_files three_rows_db = Ok three_rows_after \<and>
   (\<exists>qs. issued three_rows_after = issued three_rows_db @ qs \<and>
      Insert (row_of (mig 2 ''up2'' ''down2'' ''h2'')) \<in> set qs \<and>
      rw 1 ''down1'' ''h1'' \<in> set (ledger three_rows_db) \<and>
      Delete (r_id (rw 1 ''down1'' ''h1'')) \<notin> set qs \<and>
      (\<forall>r x. Insert r \<in> set qs \<and> x \<in> set (ledger three_rows_db) \<and> Delete (r_id x) \<notin> set qs
          \<longrightarrow> r_id x < r_id r)) \<and>
   (\<forall>i d'. reconcile sql_engine no_check two_files three_rows_db \<noteq> Fail (UniqueViolation i) d')"
proof -
  have dis: "distinct (map r_id (ledger three_rows_db))"
    by (simp add: three_rows_db_def empty_db_def rw_def)
  have dm: "distinct (map m_id two_files)"
    by (simp add: two_files_def mig_def)
  have run: "reconcile sql_engine no_check two_files three_rows_db = Ok three_rows_after"
    by (simp add: three_rows_db_def three_rows_after_def two_files_def no_check_def run_simps)
  from apply_ids_above_remaining [OF dis, of sql_engine no_check two_files] obtain qs where qs:
    "issued (db_of (reconcile sql_engine no_check two_files three_rows_db)) = issued three_rows_db @ qs"
    "\<forall>r x. Insert r \<in> set qs \<and> x \<in> set (ledger three_rows_db) \<and> Delete (r_id x) \<notin> set qs
          \<longrightarrow> r_id x < r_id r"
    "distinct (map m_id two_files) \<longrightarrow>
       (\<forall>i d'. reconcile sql_engine no_check two_files three_rows_db \<noteq> Fail (UniqueViolation i) d')"
    by blast
  from qs(1) run have iss: "issued three_rows_after = issued three_rows_db @ qs" by simp
  then have q: "qs = issued three_rows_after"
    by (simp add: three_rows_db_def empty_db_def)
  have ins: "Insert (row_of (mig 2 ''up2'' ''down2'' ''h2'')) \<in> set qs"
    unfolding q by (simp add: three_rows_after_def)
  have mem: "rw 1 ''down1'' ''h1'' \<in> set (ledger three_rows_db)"
    by (simp add: three_rows_db_def)
  have nd: "Delete (r_id (rw 1 ''down1'' ''h1'')) \<notin> set qs"
    unfolding q by (simp add: three_rows_after_def rw_def)
  from dis dm run iss ins mem nd qs(2) qs(3) show ?thesis by blast
qed

subsection \<open>C6: \<^verbatim>\<open>force = 'last'\<close>\<close>

text \<open>
  C6. On a listing with ascending ids and definitions sorted by id, the rollback phase of
  the source is the rollback loop run with condition (c) in the specification's words:
  \<^verbatim>\<open>force\<close> is \<^verbatim>\<open>'last'\<close>, the id is the greatest id of the records still in
  view, and it is the greatest id of the definitions. In particular, when the ledger
  lists exactly the rows of the definitions (ids ascending and positive, no hash equal to
  the sentinel) and the scripts of the newest definition succeed, a run with
  \<^verbatim>\<open>force = 'last'\<close> issues the rollback of the newest row and the apply of the newest
  definition and nothing else; every other row of the ledger stays as it is.
\<close>

theorem force_last_newest_only:
  assumes "sorted (map m_id migrations)" and "sorted_wrt (<) (map r_id dbMigrations)"
  shows "rollback_phase ex opts migrations firstMismatch dbMigrations d =
           spec_rollback_loop ex opts migrations firstMismatch
             (sort_key (\<lambda>r. - r_id r) dbMigrations) dbMigrations d \<and>
         (force opts = Last \<and> migrations \<noteq> [] \<and> sorted_wrt (<) (map m_id migrations) \<and>
          (\<forall>m \<in> set migrations. 0 < m_id m \<and> m_hash m \<noteq> ''nil'') \<and>
          select_all d = map row_of migrations \<and>
          exec_all ex (m_down (last migrations) # apply_scripts opts (last migrations)) (schema d)
            = Some s \<longrightarrow>
          reconcile ex opts migrations d =
            Ok (d\<lparr>ledger := filter (\<lambda>x. r_id x \<noteq> m_id (last migrations)) (ledger d) @
                             [row_of (last migrations)],
                  schema := s, saved := None,
                  issued := issued d @ rollback_queries (row_of (last migrations)) @
                            apply_queries opts (last migrations)\<rparr>))"
proof -
  from assms(2) have sl: "sorted (map r_id dbMigrations)" and dl: "distinct (map r_id dbMigrations)"
    by (simp_all add: strict_sorted_iff)
  have desc: "sort_key (\<lambda>r. - r_id r) dbMigrations = rev dbMigrations"
    by (rule sort_key_desc_rev [OF sl dl])
  have "rollback_loop ex opts migrations firstMismatch (rev dbMigrations) (rev (rev dbMigrations)) d =
        spec_rollback_loop ex opts migrations firstMismatch (rev dbMigrations)
          (rev (rev dbMigrations)) d"
    by (rule rollback_loop_eq_spec [OF assms(1)]) (simp_all add: sl dl rev_map [symmetric])
  then have p1: "rollback_phase ex opts migrations firstMismatch dbMigrations d =
           spec_rollback_loop ex opts migrations firstMismatch
             (sort_key (\<lambda>r. - r_id r) dbMigrations) dbMigrations d"
    by (simp add: rollback_phase_def desc)
  have p2: "reconcile ex opts migrations d =
            Ok (d\<lparr>ledger := filter (\<lambda>x. r_id x \<noteq> m_id (last migrations)) (ledger d) @
                             [row_of (last migrations)],
                  schema := s, saved := None,
                  issued := issued d @ rollback_queries (row_of (last migrations)) @
                            apply_queries opts (last migrations)\<rparr>)"
    if "force opts = Last" "migrations \<noteq> []" "sorted_wrt (<) (map m_id migrations)"
      "\<forall>m \<in> set migrations. 0 < m_id m \<and> m_hash m \<noteq> ''nil''"
      "select_all d = map row_of migrations"
      "exec_all ex (m_down (last migrations) # apply_scripts opts (last migrations)) (schema d)
            = Some s"
    using that by (intro force_last_rerun) auto
  from p1 p2 show ?thesis by blast
qed

theorem force_last_newest_only_witness:
  "sorted (map m_id two_files) \<and> sorted_wrt (<) (map r_id three_applied) \<and>
   rollback_phase sql_engine force_last_opts two_files (- 1) three_applied
       (empty_db\<lparr>ledger := three_applied\<rparr>) =
     spec_rollback_loop sql_engine force_last_opts two_files (- 1)
       (sort_key (\<lambda>r. - r_id r) three_applied) three_applied (empty_db\<lparr>ledger := three_applied\<rparr>) \<and>
   rollback_phase sql_engine force_last_opts two_files (- 1) three_applied
       (empty_db\<lparr>ledger := three_applied\<rparr>) =
     ([rw 1 ''down1'' ''h1''],
      Ok (empty_db\<lparr>ledger := [rw 1 ''down1'' ''h1''], schema := [''old3'', ''down2''],
            issued := [Begin, Script ''old3'', Delete 3, Commit,
                       Begin, Script ''down2'', Delete 2, Commit]\<rparr>)) \<and>
   force force_last_opts = Last \<and> two_files \<noteq> [] \<and> sorted_wrt (<) (map m_id two_files) \<and>
   list_all (\<lambda>m. 0 < m_id m \<and> m_hash m \<noteq> ''nil'') two_files \<and>
   select_all up_to_date_db = map row_of two_files \<and>
   exec_all sql_engine (m_down (last two_files) # apply_scripts force_last_opts (last two_files))
       (schema up_to_date_db) = Some [''down2'', ''up2'', ''down2'', ''up2''] \<and>
   reconcile sql_engine force_last_opts two_files up_to_date_db = Ok up_to_date_after"
proof -
  have h1: "sorted (map m_id two_files)" and h2: "sorted_wrt (<) (map r_id three_applied)"
    by (simp_all add: two_files_def three_applied_def mig_def rw_def)
  have h3: "force force_last_opts = Last \<and> two_files \<noteq> [] \<and>
      sorted_wrt (<) (map m_id two_files) \<and>
      (\<forall>m \<in> set two_files. 0 < m_id m \<and> m_hash m \<noteq> ''nil'') \<and>
      select_all up_to_date_db = map row_of two_files \<and>
      exec_all sql_engine (m_down (last two_files) # apply_scripts force_last_opts (last two_files))
        (schema up_to_date_db) = Some [''down2'', ''up2'', ''down2'', ''up2'']"
    by (simp add: force_last_opts_def two_files_def up_to_date_db_def run_simps)
  have ev: "rollback_phase sql_engine force_last_opts two_files (- 1) three_applied
       (empty_db\<lparr>ledger := three_applied\<rparr>) =
     ([rw 1 ''down1'' ''h1''],
      Ok (empty_db\<lparr>ledger := [rw 1 ''down1'' ''h1''], schema := [''old3'', ''down2''],
            issued := [Begin, Script ''old3'', Delete 3, Commit,
                       Begin, Script ''down2'', Delete 2, Commit]\<rparr>))"
    by (simp add: force_last_opts_def two_files_def three_applied_def run_simps)
  have la: "list_all (\<lambda>m. 0 < m_id m \<and> m_hash m \<noteq> ''nil'') two_files"
    by (simp add: two_files_def mig_def)
  note w = force_last_newest_only [OF h1 h2, where ex = sql_engine and opts = force_last_opts
      and firstMismatch = "- 1" and d = "empty_db\<lparr>ledger := three_applied\<rparr>"]
  note v = force_last_newest_only [OF h1 h2, where ex = sql_engine and opts = force_last_opts
      and d = up_to_date_db and s = "[''down2'', ''up2'', ''down2'', ''up2'']"]
  from v h3 have "reconcile sql_engine force_last_opts two_files up_to_date_db =
      Ok (up_to_date_db\<lparr>ledger := filter (\<lambda>x. r_id x \<noteq> m_id (last two_files)) (ledger up_to_date_db) @
                             [row_of (last two_files)],
            schema := [''down2'', ''up2'', ''down2'', ''up2''], saved := None,
            issued := issued up_to_date_db @ rollback_queries (row_of (last two_files)) @
                      apply_queries force_last_opts (last two_files)\<rparr>)"
    by blast
  then have run: "reconcile sql_engine force_last_opts two_files up_to_date_db = Ok up_to_date_after"
    by (simp add: up_to_date_db_def up_to_date_after_def two_files_def force_last_opts_def run_simps)
  from w have p1: "rollback_phase sql_engine force_last_opts two_files (- 1) three_applied
       (empty_db\<lparr>ledger := three_applied\<rparr>) =
     spec_rollback_loop sql_engine force_last_opts two_files (- 1)
       (sort_key (\<lambda>r. - r_id r) three_applied) three_applied (empty_db\<lparr>ledger := three_applied\<rparr>)"
    by blast
  from h1 h2 p1 ev h3 la run show ?thesis by blast
qed

subsection \<open>C8: a second run\<close>

text \<open>
  C8, as stated, fails. With \<^verbatim>\<open>force = 'last'\<close> a second run on the same
  definitions and the database the first run left rolls the newest migration back and
  applies it again. And a first run that fails is not a run after which nothing remains
  to do: with two definitions of id 1 and one of id 2 the first run stops at the second
  insert of id 1, and the second run applies id 2.
\<close>

theorem forced_second_run_reapplies:
  "reconcile sql_engine force_last_opts two_files empty_db = Ok first_run_db \<and>
   reconcile sql_engine force_last_opts two_files first_run_db =
     Ok (first_run_db
          \<lparr>schema := schema first_run_db @ [''down2'', ''up2'', ''down2'', ''up2''],
            issued := issued first_run_db @
              [Begin, Script ''down2'', Delete 2, Commit,
               Begin, Script ''up2'', Script ''down2'', Script ''up2'',
               Insert (row_of (mig 2 ''up2'' ''down2'' ''h2'')), Commit]\<rparr>) \<and>
   force no_check = NoForce \<and>
   reconcile sql_engine no_check clash_files empty_db = Fail (UniqueViolation 1) clash_after \<and>
   reconcile sql_engine no_check clash_files clash_after =
     Ok (clash_after
          \<lparr>ledger := ledger clash_after @ [row_of (mig 2 ''up2'' ''down2'' ''h2'')],
            schema := schema clash_after @ [''up2'', ''down2'', ''up2''],
            issued := issued clash_after @
              [Begin, Script ''up2'', Script ''down2'', Script ''up2'',
               Insert (row_of (mig 2 ''up2'' ''down2'' ''h2'')), Commit]\<rparr>)"
  by (simp add: first_run_db_def two_files_def force_last_opts_def clash_files_def
      clash_after_def no_check_def run_simps)

text \<open>
  C8, amended. When \<^verbatim>\<open>force\<close> is not \<^verbatim>\<open>'last'\<close> and a run has succeeded, a second
  run on the same definitions and the database the first run left succeeds and performs
  no rollback and no apply: the ledger and the schema stay as they are, and the only
  statements it issues rewrite a sentinel hash with the sentinel (none at all when no
  definition's hash is the sentinel).
\<close>

theorem second_run_does_nothing:
  assumes "force opts = NoForce" and "distinct (map r_id (ledger d))"
    and "\<forall>m \<in> set migrations. 0 \<le> m_id m"
    and "reconcile ex opts migrations d = Ok d1"
  shows "\<exists>qs. reconcile ex opts migrations d1 = Ok (d1\<lparr>issued := issued d1 @ qs\<rparr>) \<and>
           (\<forall>q \<in> set qs. \<exists>i. q = UpdateHash ''nil'' i) \<and>
           ((\<forall>m \<in> set migrations. m_hash m \<noteq> ''nil'') \<longrightarrow> qs = [])"
proof -
  let ?qs = "concat (map (backfill_queries migrations) (select_all d1))"
  note sr = second_run [OF assms]
  have fixed: "\<forall>r \<in> set (select_all d1). backfill migrations r = r"
    using sr(2) by (simp add: set_select_all)
  have upd: "\<forall>q \<in> set ?qs. \<exists>i. q = UpdateHash ''nil'' i"
  proof
    fix q assume "q \<in> set ?qs"
    then obtain r where r: "r \<in> set (select_all d1)" "q \<in> set (backfill_queries migrations r)"
      by auto
    with fixed have "backfill migrations r = r" by simp
    from backfill_queries_fixed [OF this] r(2) show "\<exists>i. q = UpdateHash ''nil'' i"
      by auto
  qed
  have none: "(\<forall>m \<in> set migrations. m_hash m \<noteq> ''nil'') \<longrightarrow> ?qs = []"
    using fixed backfill_queries_no_nil by simp
  from sr(1) upd none show ?thesis by blast
qed

theorem second_run_does_nothing_witness:
  "force no_check = NoForce \<and> distinct (map r_id (ledger empty_db)) \<and>
   list_all (\<lambda>m. 0 \<le> m_id m) two_files \<and>
   reconcile sql_engine no_check two_files empty_db = Ok first_run_db \<and>
   list_all (\<lambda>m. m_hash m \<noteq> ''nil'') two_files \<and>
   reconcile sql_engine no_check two_files first_run_db = Ok first_run_db"
proof -
  have h1: "force no_check = NoForce" by (simp add: no_check_def)
  have h2: "distinct (map r_id (ledger empty_db))" by (simp add: empty_db_def)
  have h3: "\<forall>m \<in> set two_files. 0 \<le> m_id m" by (simp add: two_files_def mig_def)
  have h4: "reconcile sql_engine no_check two_files empty_db = Ok first_run_db"
    by (simp add: first_run_db_def two_files_def no_check_def run_simps)
  have h5: "\<forall>m \<in> set two_files. m_hash m \<noteq> ''nil''" by (simp add: two_files_def mig_def)
  from second_run_does_nothing [OF h1 h2 h3 h4] h5 have
    "reconcile sql_engine no_check two_files first_run_db =
       Ok (first_run_db\<lparr>issued := issued first_run_db @ []\<rparr>)"
    by auto
  then have "reconcile sql_engine no_check two_files first_run_db = Ok first_run_db"
    by simp
  with h1 h2 h3 h4 h5 show ?thesis by (simp add: list_all_iff)
qed

subsection \<open>C5: the file names loaded\<close>




subsection \<open>C3: the two segments of a file\<close>

text \<open>
  C3, as stated, fails. The content is split at every marker and only the first two
  pieces are used: with two markers the down segment ends at the second one, so the text
  after the first marker is not all of it. And the marker must begin its line: a line
  that is \<^verbatim>\<open>-- down\<close> after white space is no marker, and a file with only such a
  line fails to load.
\<close>

theorem marker_line_claim_fails:
  "js_split True [] ''a\<newline>-- down\<newline>b\<newline>-- down\<newline>c'' = [''a\<newline>'', ''\<newline>b\<newline>'', ''\<newline>c''] \<and>
   match_marker ''-- down\<newline>b\<newline>-- down\<newline>c'' = Some ''\<newline>b\<newline>-- down\<newline>c'' \<and>
   parse_file plain_digest demo_entry ''a\<newline>-- down\<newline>b\<newline>-- down\<newline>c'' =
     Inr \<lparr>m_id = 1, m_name = ''a'', m_filename = ''1.a.sql'', m_up = ''a'', m_down = ''b'',
           m_hash = ''a\<newline>-- down\<newline>b\<newline>-- down\<newline>c''\<rparr> \<and>
   spec_marker_line ''  -- down'' \<and>
   parse_file plain_digest demo_entry ''a\<newline>  -- down\<newline>b'' =
     Inl (MalformedMigrationFile ''1.a.sql'')"
proof -
  have "js_split True [] ''a\<newline>-- down\<newline>b\<newline>-- down\<newline>c'' = [''a\<newline>'', ''\<newline>b\<newline>'', ''\<newline>c'']"
    by code_simp
  moreover have "match_marker ''-- down\<newline>b\<newline>-- down\<newline>c'' = Some ''\<newline>b\<newline>-- down\<newline>c''"
    by code_simp
  moreover have "parse_file plain_digest demo_entry ''a\<newline>-- down\<newline>b\<newline>-- down\<newline>c'' =
     Inr \<lparr>m_id = 1, m_name = ''a'', m_filename = ''1.a.sql'', m_up = ''a'', m_down = ''b'',
           m_hash = ''a\<newline>-- down\<newline>b\<newline>-- down\<newline>c''\<rparr>"
    by code_simp
  moreover have "spec_marker_line ''  -- down''" by code_simp
  moreover have "parse_file plain_digest demo_entry ''a\<newline>  -- down\<newline>b'' =
     Inl (MalformedMigrationFile ''1.a.sql'')"
    by code_simp
  ultimately show ?thesis by (intro conjI)
qed

text \<open>
  C3, amended. A marker is \<^verbatim>\<open>--\<close> at the very beginning of a line, one or more
  white-space characters and \<^verbatim>\<open>down\<close> in either case; what follows \<^verbatim>\<open>down\<close> on its
  line stays in the text after the marker. A content without a marker fails to load with
  MalformedMigrationFile. Otherwise the text before the first marker is the up segment,
  and the down segment is the text after the first marker up to the next marker, or up to
  the end when there is none; the load fails with MalformedMigrationFile when the down
  segment is empty, and otherwise gives both segments with their comment lines removed,
  trimmed, and the hash of the whole content.
\<close>

theorem split_at_markers:
  "(match_marker s = Some rest \<longleftrightarrow>
      (\<exists>ws dn. s = ''--'' @ ws @ dn @ rest \<and> ws \<noteq> [] \<and> list_all is_space ws \<and>
         down_ci dn = Some [])) \<and>
   (no_marker_before True data (length data) \<longrightarrow>
      parse_file H e data = Inl (MalformedMigrationFile (e_filename e))) \<and>
   (no_marker_before True (up @ s) (length up) \<and> marker_at True (up @ s) (length up) \<and>
    match_marker s = Some rest \<longrightarrow>
      js_split True [] (up @ s) = up # js_split False [] rest \<and>
      prefix (hd (js_split False [] rest)) rest \<and>
      (no_marker_before False rest (length rest) \<longrightarrow> hd (js_split False [] rest) = rest) \<and>
      (no_marker_before False (down @ s2) (length down) \<and>
       marker_at False (down @ s2) (length down) \<and> rest = down @ s2 \<longrightarrow>
         hd (js_split False [] rest) = down) \<and>
      parse_file H e (up @ s) =
        (if hd (js_split False [] rest) = [] then Inl (MalformedMigrationFile (e_filename e))
         else Inr \<lparr>m_id = e_id e, m_name = e_name e, m_filename = e_filename e,
                   m_up = trim (strip_comments True up),
                   m_down = trim (strip_comments True (hd (js_split False [] rest))),
                   m_hash = content_hash H (up @ s)\<rparr>))"
proof (intro conjI impI)
  show "match_marker s = Some rest \<longleftrightarrow>
      (\<exists>ws dn. s = ''--'' @ ws @ dn @ rest \<and> ws \<noteq> [] \<and> list_all is_space ws \<and>
         down_ci dn = Some [])"
    by (rule match_marker_iff)
next
  assume "no_marker_before True data (length data)"
  then have "js_split True [] data = [data]"
    using js_split_no_marker [of True data "[]"] by simp
  then show "parse_file H e data = Inl (MalformedMigrationFile (e_filename e))"
    by (simp add: parse_file_def)
next
  assume a: "no_marker_before True (up @ s) (length up) \<and> marker_at True (up @ s) (length up) \<and>
    match_marker s = Some rest"
  then have sp: "js_split True [] (up @ s) = up # js_split False [] rest"
    using js_split_first_marker [of True up s rest "[]"] by simp
  then show "js_split True [] (up @ s) = up # js_split False [] rest" .
  show "prefix (hd (js_split False [] rest)) rest"
    using js_split_hd_prefix [of "[]" False rest] by simp
  show "parse_file H e (up @ s) =
        (if hd (js_split False [] rest) = [] then Inl (MalformedMigrationFile (e_filename e))
         else Inr \<lparr>m_id = e_id e, m_name = e_name e, m_filename = e_filename e,
                   m_up = trim (strip_comments True up),
                   m_down = trim (strip_comments True (hd (js_split False [] rest))),
                   m_hash = content_hash H (up @ s)\<rparr>)"
    by (rule parse_file_pieces [OF sp js_split_nonempty])
next
  assume "no_marker_before False rest (length rest)"
  then show "hd (js_split False [] rest) = rest"
    using js_split_no_marker [of False rest "[]"] by simp
next
  assume b: "no_marker_before False (down @ s2) (length down) \<and>
       marker_at False (down @ s2) (length down) \<and> rest = down @ s2"
  then have m: "match_marker s2 \<noteq> None" by (simp add: marker_at_def)
  then obtain rest2 where "match_marker s2 = Some rest2" by blast
  with b have "js_split False [] (down @ s2) = down # js_split False [] rest2"
    using js_split_first_marker [of False down s2 rest2 "[]"] by simp
  with b show "hd (js_split False [] rest) = down" by simp
qed

theorem split_at_markers_witness:
  "match_marker ''--  DoWn x'' = Some '' x'' \<and>
   no_marker_before True ''CREATE;'' (length ''CREATE;'') \<and>
   parse_file plain_digest demo_entry ''CREATE;'' = Inl (MalformedMigrationFile ''1.a.sql'') \<and>
   no_marker_before True (''CREATE;\<newline>'' @ ''-- Down\<newline>DROP;\<newline>-- down\<newline>X'')
     (length ''CREATE;\<newline>'') \<and>
   marker_at True (''CREATE;\<newline>'' @ ''-- Down\<newline>DROP;\<newline>-- down\<newline>X'')
     (length ''CREATE;\<newline>'') \<and>
   match_marker ''-- Down\<newline>DROP;\<newline>-- down\<newline>X'' = Some ''\<newline>DROP;\<newline>-- down\<newline>X'' \<and>
   no_marker_before False (''\<newline>DROP;\<newline>'' @ ''-- down\<newline>X'') (length ''\<newline>DROP;\<newline>'') \<and>
   marker_at False (''\<newline>DROP;\<newline>'' @ ''-- down\<newline>X'') (length ''\<newline>DROP;\<newline>'') \<and>
   hd (js_split False [] ''\<newline>DROP;\<newline>-- down\<newline>X'') = ''\<newline>DROP;\<newline>'' \<and>
   parse_file plain_digest demo_entry (''CREATE;\<newline>'' @ ''-- Down\<newline>DROP;\<newline>-- down\<newline>X'') =
     Inr \<lparr>m_id = 1, m_name = ''a'', m_filename = ''1.a.sql'', m_up = ''CREATE;'', m_down = ''DROP;'',
           m_hash = ''CREATE;\<newline>-- Down\<newline>DROP;\<newline>-- down\<newline>X''\<rparr> \<and>
   no_marker_before False ''\<newline>B'' (length ''\<newline>B'') \<and>
   hd (js_split False [] ''\<newline>B'') = ''\<newline>B''"
proof -
  have h0: "\<exists>ws dn. ''--  DoWn x'' = ''--'' @ ws @ dn @ '' x'' \<and> ws \<noteq> [] \<and> list_all is_space ws \<and>
      down_ci dn = Some []"
    by (intro exI [of _ "''  ''"] exI [of _ "''DoWn''"]) (simp add: is_space_def down_ci_def)
  have h1: "no_marker_before True ''CREATE;'' (length ''CREATE;'')" by code_simp
  have h2: "no_marker_before True (''CREATE;\<newline>'' @ ''-- Down\<newline>DROP;\<newline>-- down\<newline>X'')
     (length ''CREATE;\<newline>'')" by code_simp
  have h3: "marker_at True (''CREATE;\<newline>'' @ ''-- Down\<newline>DROP;\<newline>-- down\<newline>X'')
     (length ''CREATE;\<newline>'')" by code_simp
  have h4: "match_marker ''-- Down\<newline>DROP;\<newline>-- down\<newline>X'' = Some ''\<newline>DROP;\<newline>-- down\<newline>X''"
    by code_simp
  have h5: "no_marker_before False (''\<newline>DROP;\<newline>'' @ ''-- down\<newline>X'') (length ''\<newline>DROP;\<newline>'')"
    by code_simp
  have h6: "marker_at False (''\<newline>DROP;\<newline>'' @ ''-- down\<newline>X'') (length ''\<newline>DROP;\<newline>'')"
    by code_simp
  have h7: "''\<newline>DROP;\<newline>-- down\<newline>X'' = ''\<newline>DROP;\<newline>'' @ ''-- down\<newline>X''" by simp
  have h8: "no_marker_before False ''\<newline>B'' (length ''\<newline>B'')" by code_simp
  have h9: "no_marker_before True (''A\<newline>'' @ ''-- down\<newline>B'') (length ''A\<newline>'')" by code_simp
  have h10: "marker_at True (''A\<newline>'' @ ''-- down\<newline>B'') (length ''A\<newline>'')" by code_simp
  have h11: "match_marker ''-- down\<newline>B'' = Some ''\<newline>B''" by code_simp
  note t = split_at_markers [where s = "''-- Down\<newline>DROP;\<newline>-- down\<newline>X''"
      and rest = "''\<newline>DROP;\<newline>-- down\<newline>X''" and data = "''CREATE;''" and H = plain_digest
      and e = demo_entry and up = "''CREATE;\<newline>''" and down = "''\<newline>DROP;\<newline>''"
      and ?s2.0 = "''-- down\<newline>X''"]
  note u = split_at_markers [where s = "''-- down\<newline>B''" and rest = "''\<newline>B''" and up = "''A\<newline>''"]
  note v = split_at_markers [where s = "''--  DoWn x''" and rest = "'' x''"]
  from v h0 have c0: "match_marker ''--  DoWn x'' = Some '' x''" by blast
  from t h1 have c1: "parse_file plain_digest demo_entry ''CREATE;'' =
      Inl (MalformedMigrationFile (e_filename demo_entry))"
    by blast
  from t h2 h3 h4 h5 h6 h7 have c2: "hd (js_split False [] ''\<newline>DROP;\<newline>-- down\<newline>X'') = ''\<newline>DROP;\<newline>''"
    by blast
  from t h2 h3 h4 have c3:
    "parse_file plain_digest demo_entry (''CREATE;\<newline>'' @ ''-- Down\<newline>DROP;\<newline>-- down\<newline>X'') =
        (if hd (js_split False [] ''\<newline>DROP;\<newline>-- down\<newline>X'') = []
         then Inl (MalformedMigrationFile (e_filename demo_entry))
         else Inr \<lparr>m_id = e_id demo_entry, m_name = e_name demo_entry,
                   m_filename = e_filename demo_entry,
                   m_up = trim (strip_comments True ''CREATE;\<newline>''),
                   m_down = trim (strip_comments True (hd (js_split False [] ''\<newline>DROP;\<newline>-- down\<newline>X''))),
                   m_hash = content_hash plain_digest (''CREATE;\<newline>'' @ ''-- Down\<newline>DROP;\<newline>-- down\<newline>X'')\<rparr>)"
    by blast
  from u h9 h10 h11 h8 have c4: "hd (js_split False [] ''\<newline>B'') = ''\<newline>B''"
    by blast
  have tr: "trim (strip_comments True ''CREATE;\<newline>'') = ''CREATE;''"
    "trim (strip_comments True ''\<newline>DROP;\<newline>'') = ''DROP;''"
    "content_hash plain_digest (''CREATE;\<newline>'' @ ''-- Down\<newline>DROP;\<newline>-- down\<newline>X'') =
       ''CREATE;\<newline>-- Down\<newline>DROP;\<newline>-- down\<newline>X''"
    by code_simp+
  from c3 have c3': "parse_file plain_digest demo_entry (''CREATE;\<newline>'' @ ''-- Down\<newline>DROP;\<newline>-- down\<newline>X'') =
     Inr \<lparr>m_id = 1, m_name = ''a'', m_filename = ''1.a.sql'', m_up = ''CREATE;'', m_down = ''DROP;'',
           m_hash = ''CREATE;\<newline>-- Down\<newline>DROP;\<newline>-- down\<newline>X''\<rparr>"
    unfolding c2 tr by (simp add: demo_entry_def)
  from c1 have c1': "parse_file plain_digest demo_entry ''CREATE;'' = Inl (MalformedMigrationFile ''1.a.sql'')"
    by (simp add: demo_entry_def)
  from c0 h1 c1' h2 h3 h4 h5 h6 c2 c3' h8 c4 show ?thesis by (intro conjI)
qed

subsection \<open>C4: the hash of a file\<close>

text \<open>
  C4, as stated, fails. Not every change of one byte changes the digest: taking the carriage
  return out of a pair carriage return, line feed makes the file one byte shorter and leaves
  the hashed text, hence the digest, as it was, whatever the digest function is. And not
  every line ending is brought to one convention: a carriage return alone, which the marker
  pattern of the same function takes for a line ending, stays in the hashed text.
\<close>

theorem carriage_return_does_not_count:
  "''a'' @ [CHR 0x0D, CHR 0x0A] @ ''b'' \<noteq> ''a'' @ [CHR 0x0A] @ ''b'' \<and>
   length (''a'' @ [CHR 0x0D, CHR 0x0A] @ ''b'') = Suc (length (''a'' @ [CHR 0x0A] @ ''b'')) \<and>
   (\<forall>H. content_hash H (''a'' @ [CHR 0x0D, CHR 0x0A] @ ''b'') =
          content_hash H (''a'' @ [CHR 0x0A] @ ''b'')) \<and>
   is_line_terminator (CHR 0x0D) \<and>
   normalize_newlines (''a'' @ [CHR 0x0D] @ ''b'') = ''a'' @ [CHR 0x0D] @ ''b''"
  by (simp add: content_hash_def is_line_terminator_def)

text \<open>
  C4, amended. The hash of a loaded migration is the digest of the whole content of the
  file, before it is split, with every pair carriage return, line feed replaced by a line
  feed; it is a function of the content, so the same content has the same hash. A content
  without carriage returns is hashed as it is, and has the hash of the same text with
  carriage return, line feed at every line end. Replacing one character of the content by a
  different one always changes the text that is hashed, and so changes the hash whenever the
  digest tells the two hashed texts apart. The digest itself, SHA-512 in hexadecimal, is the
  platform's and is a parameter here.
\<close>

theorem content_hash_of_normalised_text:
  "(parse_file H e data = Inr m \<longrightarrow> m_hash m = content_hash H data) \<and>
   content_hash H data = H (normalize_newlines data) \<and>
   (CHR 0x0D \<notin> set data \<longrightarrow>
      normalize_newlines data = data \<and> content_hash H (to_crlf data) = content_hash H data) \<and>
   (c \<noteq> c' \<longrightarrow> normalize_newlines (u @ c # v) \<noteq> normalize_newlines (u @ c' # v)) \<and>
   (c \<noteq> c' \<and> inj_on H {normalize_newlines (u @ c # v), normalize_newlines (u @ c' # v)} \<longrightarrow>
      content_hash H (u @ c # v) \<noteq> content_hash H (u @ c' # v))"
proof (intro conjI impI)
  assume "parse_file H e data = Inr m"
  then show "m_hash m = content_hash H data" by (rule parse_file_hash)
next
  show "content_hash H data = H (normalize_newlines data)" by (simp add: content_hash_def)
next
  assume "CHR 0x0D \<notin> set data"
  then show "normalize_newlines data = data"
    and "content_hash H (to_crlf data) = content_hash H data"
    by (simp_all add: content_hash_def normalize_no_cr normalize_to_crlf)
next
  assume "c \<noteq> c'"
  then show "normalize_newlines (u @ c # v) \<noteq> normalize_newlines (u @ c' # v)"
    by (rule normalize_substitution)
next
  assume a: "c \<noteq> c' \<and>
    inj_on H {normalize_newlines (u @ c # v), normalize_newlines (u @ c' # v)}"
  then have "normalize_newlines (u @ c # v) \<noteq> normalize_newlines (u @ c' # v)"
    by (intro normalize_substitution) simp
  with a show "content_hash H (u @ c # v) \<noteq> content_hash H (u @ c' # v)"
    by (auto simp: content_hash_def dest: inj_onD)
qed

theorem content_hash_of_normalised_text_witness:
  "parse_file plain_digest demo_entry ''up\<newline>-- down\<newline>down'' =
     Inr \<lparr>m_id = 1, m_name = ''a'', m_filename = ''1.a.sql'', m_up = ''up'', m_down = ''down'',
           m_hash = ''up\<newline>-- down\<newline>down''\<rparr> \<and>
   content_hash plain_digest ''up\<newline>-- down\<newline>down'' = ''up\<newline>-- down\<newline>down'' \<and>
   CHR 0x0D \<notin> set ''a\<newline>b'' \<and>
   to_crlf ''a\<newline>b'' = [CHR ''a'', CHR 0x0D, CHR 0x0A, CHR ''b''] \<and>
   content_hash plain_digest (to_crlf ''a\<newline>b'') = content_hash plain_digest ''a\<newline>b'' \<and>
   CHR 0x0D \<noteq> CHR ''x'' \<and>
   inj_on plain_digest {normalize_newlines (''a'' @ CHR 0x0D # ''\<newline>b''),
                        normalize_newlines (''a'' @ CHR ''x'' # ''\<newline>b'')} \<and>
   content_hash plain_digest (''a'' @ CHR 0x0D # ''\<newline>b'') \<noteq>
     content_hash plain_digest (''a'' @ CHR ''x'' # ''\<newline>b'')"
proof -
  note t = content_hash_of_normalised_text [where H = plain_digest and e = demo_entry
      and data = "''up\<newline>-- down\<newline>down''"
      and m = "\<lparr>m_id = 1, m_name = ''a'', m_filename = ''1.a.sql'', m_up = ''up'', m_down = ''down'',
           m_hash = ''up\<newline>-- down\<newline>down''\<rparr>"]
  note t2 = content_hash_of_normalised_text [where H = plain_digest and data = "''a\<newline>b''"
      and c = "CHR 0x0D" and c' = "CHR ''x''" and u = "''a''" and v = "''\<newline>b''"]
  have p: "parse_file plain_digest demo_entry ''up\<newline>-- down\<newline>down'' =
     Inr \<lparr>m_id = 1, m_name = ''a'', m_filename = ''1.a.sql'', m_up = ''up'', m_down = ''down'',
           m_hash = ''up\<newline>-- down\<newline>down''\<rparr>"
    by code_simp
  with t have c1: "content_hash plain_digest ''up\<newline>-- down\<newline>down'' = ''up\<newline>-- down\<newline>down''"
    by simp
  have h2: "CHR 0x0D \<notin> set ''a\<newline>b''" by simp
  have h3: "to_crlf ''a\<newline>b'' = [CHR ''a'', CHR 0x0D, CHR 0x0A, CHR ''b'']" by (simp add: to_crlf_def)
  from t2 h2 have c2: "content_hash plain_digest (to_crlf ''a\<newline>b'') = content_hash plain_digest ''a\<newline>b''"
    by blast
  have h4: "CHR 0x0D \<noteq> CHR ''x''" by simp
  have h5: "inj_on plain_digest {normalize_newlines (''a'' @ CHR 0x0D # ''\<newline>b''),
                        normalize_newlines (''a'' @ CHR ''x'' # ''\<newline>b'')}"
    by (simp add: inj_on_def plain_digest_def)
  from t2 h4 h5 have c3: "content_hash plain_digest (''a'' @ CHR 0x0D # ''\<newline>b'') \<noteq>
     content_hash plain_digest (''a'' @ CHR ''x'' # ''\<newline>b'')"
    by blast
  from p c1 h2 h3 c2 h4 h5 c3 show ?thesis by (intro conjI)
qed

end
